theory Spec2Isabelle
  imports Main "HOL-Library.Word" "HOL-Library.Signed_Division"
begin

unbundle bit_operations_syntax

section \<open>The 8254 timer driver (devices/timer.c)\<close>

text \<open>
  The driver keeps two file-local variables, \<open>ticks\<close> (an \<open>int64_t\<close>) and
  \<open>loops_per_tick\<close> (an \<open>unsigned\<close>). Everything else it touches belongs to other
  modules: the interrupt level, the flag \<open>thread_mlfqs\<close>, the port writes, the console
  and the scheduler hooks. The model keeps the two variables, the interrupt level and the
  flag in a record, and logs every other call that leaves the file (port writes, console
  output, scheduler and sleep-queue hooks) in \<open>calls\<close>, in program order.
  \<open>busy_iters\<close> counts the iterations of the loop in \<open>busy_wait\<close>, and \<open>probes\<close> lists
  the arguments \<open>too_many_loops\<close> was called with.

  Machine integers are words: \<open>+\<close>, \<open>-\<close> and \<open>*\<close> wrap around, as the x86-64 instructions
  do (C leaves signed overflow undefined). \<open>TIMER_FREQ\<close> comes from devices/timer.h and is
  a parameter \<open>F\<close> of every function that uses it.
\<close>

subsection \<open>Data\<close>

datatype intr_level = INTR_OFF | INTR_ON

datatype event =
    Outb "16 word" "8 word"
  | Intr_register_ext "8 word" string
  | Printf_calibrating
  | Printf_loops_per_s "64 word"
  | Printf_ticks "64 word"
  | Thread_tick
  | Thread_sleep "64 word"
  | Thread_awake "64 word"
  | Mlfqs_increment
  | Mlfqs_priority
  | Mlfqs_load_avg
  | Mlfqs_recalc

text \<open>
  Modelled from the spec: \<open>ASSERT\<close> comes from debug.h, which is not among the sources.
  The spec has a failed assertion halt the kernel; \<open>Assertion_failed\<close> carries the
  condition that failed. \<open>Divide_error\<close> is the processor's trap on a division, and
  \<open>No_return\<close> stands for a loop that never ends.
\<close>

datatype error = Assertion_failed string | Divide_error | No_return

record timer_state =
  ticks :: "64 word"
  loops_per_tick :: "32 word"
  intr_level :: intr_level
  thread_mlfqs :: bool
  calls :: "event list"
  busy_iters :: nat
  probes :: "32 word list"

text \<open>Static storage is zeroed before the kernel runs; interrupts start disabled.\<close>

definition boot_state :: "bool \<Rightarrow> timer_state" where
  "boot_state mlfqs =
     \<lparr>ticks = 0, loops_per_tick = 0, intr_level = INTR_OFF, thread_mlfqs = mlfqs,
      calls = [], busy_iters = 0, probes = []\<rparr>"

text \<open>The two preprocessor checks at the top of the file.\<close>

definition TIMER_FREQ_ok :: "int \<Rightarrow> bool" where
  "TIMER_FREQ_ok F = (\<not> F < 19 \<and> \<not> F > 1000)"

subsection \<open>C arithmetic\<close>

text \<open>
  \<open>/\<close> and \<open>%\<close> on signed operands truncate towards zero. The division instruction traps
  on a zero divisor and on \<open>INT_MIN / -1\<close>. \<open>c_mod\<close> is only used with the non-zero
  constant divisors 4, \<open>TIMER_FREQ\<close> and 1000.
\<close>

definition c_div :: "'a::len word \<Rightarrow> 'a word \<Rightarrow> error + 'a word" where
  "c_div a b =
     (if b = 0 \<or> (sint a = - (2 ^ (LENGTH('a) - 1)) \<and> b = - 1) then Inl Divide_error
      else Inr (word_of_int (sint a sdiv sint b)))"

definition c_mod :: "'a::len word \<Rightarrow> 'a word \<Rightarrow> 'a word" where
  "c_mod a b = word_of_int (sint a smod sint b)"

definition call :: "event \<Rightarrow> timer_state \<Rightarrow> timer_state" where
  "call e s = s\<lparr>calls := calls s @ [e]\<rparr>"

subsection \<open>Interrupt level (threads/interrupt.c, as used here)\<close>

text \<open>
  Modelled from the spec: threads/interrupt.c is not among the sources. The spec's
  snapshot of the counter is "disable interrupts, read, restore the interrupt state":
  \<open>intr_disable\<close> turns interrupts off and returns the level before,
  \<open>intr_set_level\<close> sets the level and \<open>intr_get_level\<close> reads it.
\<close>

definition intr_get_level :: "timer_state \<Rightarrow> intr_level" where
  "intr_get_level s = intr_level s"

definition intr_disable :: "timer_state \<Rightarrow> intr_level \<times> timer_state" where
  "intr_disable s = (intr_level s, s\<lparr>intr_level := INTR_OFF\<rparr>)"

definition intr_set_level :: "intr_level \<Rightarrow> timer_state \<Rightarrow> timer_state" where
  "intr_set_level l s = s\<lparr>intr_level := l\<rparr>"

subsection \<open>timer_init\<close>

definition timer_init :: "int \<Rightarrow> timer_state \<Rightarrow> timer_state" where
  "timer_init F s =
     (let count = (word_of_int ((1193180 + F sdiv 2) sdiv F) :: 16 word);
          s1 = call (Outb 0x43 0x34) s;
          s2 = call (Outb 0x40 (ucast (count AND 0xff))) s1;
          s3 = call (Outb 0x40 (ucast (drop_bit 8 count))) s2
      in call (Intr_register_ext 0x20 ''8254 Timer'') s3)"

subsection \<open>timer_ticks, timer_elapsed, timer_sleep\<close>

definition timer_ticks :: "timer_state \<Rightarrow> 64 word \<times> timer_state" where
  "timer_ticks s =
     (let (old_level, s1) = intr_disable s;
          t = ticks s1;
          s2 = intr_set_level old_level s1
      in (t, s2))"

definition timer_elapsed :: "64 word \<Rightarrow> timer_state \<Rightarrow> 64 word \<times> timer_state" where
  "timer_elapsed then' s = (let (t, s1) = timer_ticks s in (t - then', s1))"

definition timer_sleep :: "64 word \<Rightarrow> timer_state \<Rightarrow> timer_state" where
  "timer_sleep ticks' s =
     (let (start, s1) = timer_ticks s
      in call (Thread_sleep (start + ticks')) s1)"

definition timer_print_stats :: "timer_state \<Rightarrow> timer_state" where
  "timer_print_stats s = (let (t, s1) = timer_ticks s in call (Printf_ticks t) s1)"

subsection \<open>timer_interrupt\<close>

definition timer_interrupt :: "int \<Rightarrow> timer_state \<Rightarrow> timer_state" where
  "timer_interrupt F s =
     (let s1 = s\<lparr>ticks := ticks s + 1\<rparr>;
          s2 = call Thread_tick s1;
          s3 = (if thread_mlfqs s2 then
                  (let s4 = call Mlfqs_increment s2;
                       (t, s5) = timer_ticks s4
                   in if c_mod t 4 = 0 then
                        (let s6 = call Mlfqs_priority s5;
                             (t', s7) = timer_ticks s6
                         in if c_mod t' (of_int F) = 0
                            then call Mlfqs_recalc (call Mlfqs_load_avg s7)
                            else s7)
                      else s5)
                else s2)
      in call (Thread_awake (ticks s3)) s3)"

subsection \<open>busy_wait\<close>

function busy_wait :: "64 word \<Rightarrow> timer_state \<Rightarrow> timer_state" where
  "busy_wait loops s =
     (if 0 < sint loops
      then busy_wait (loops - 1) (s\<lparr>busy_iters := Suc (busy_iters s)\<rparr>)
      else s)"
  by pat_completeness auto
termination
proof (relation "measure (\<lambda>(loops, s). nat (sint loops))")
  show "wf (measure (\<lambda>(loops :: 64 word, s :: timer_state). nat (sint loops)))"
    by simp
next
  fix loops :: "64 word" and s :: timer_state
  assume pos: "0 < sint loops"
  then have "sint (loops - 1) = sint loops - 1"
    using sint_lt [of loops] by (simp add: sint_word_ariths signed_take_bit_int_eq_self)
  with pos show "((loops - 1, s\<lparr>busy_iters := Suc (busy_iters s)\<rparr>), (loops, s))
      \<in> measure (\<lambda>(loops, s). nat (sint loops))"
    by simp
qed

declare busy_wait.simps [simp del]

subsection \<open>real_time_sleep and its three callers\<close>

text \<open>The argument of the \<open>busy_wait\<close> call in the sub-tick branch.\<close>

definition sub_tick_loops :: "int \<Rightarrow> 32 word \<Rightarrow> 64 word \<Rightarrow> 32 word \<Rightarrow> error + 64 word" where
  "sub_tick_loops F lpt num denom =
     (case c_div (ucast lpt * num) 1000 of
        Inl e \<Rightarrow> Inl e
      | Inr a \<Rightarrow>
          (case c_div denom 1000 of
             Inl e \<Rightarrow> Inl e
           | Inr d \<Rightarrow> c_div (a * of_int F) (scast d)))"

definition real_time_sleep :: "int \<Rightarrow> 64 word \<Rightarrow> 32 word \<Rightarrow> timer_state \<Rightarrow> error + timer_state" where
  "real_time_sleep F num denom s =
     (case c_div (num * of_int F) (scast denom) of
        Inl e \<Rightarrow> Inl e
      | Inr ticks' \<Rightarrow>
          if intr_get_level s \<noteq> INTR_ON
          then Inl (Assertion_failed ''intr_get_level () == INTR_ON'')
          else if 0 < sint ticks' then Inr (timer_sleep ticks' s)
          else if c_mod denom 1000 \<noteq> 0
          then Inl (Assertion_failed ''denom % 1000 == 0'')
          else (case sub_tick_loops F (loops_per_tick s) num denom of
                  Inl e \<Rightarrow> Inl e
                | Inr loops \<Rightarrow> Inr (busy_wait loops s)))"

definition timer_msleep :: "int \<Rightarrow> 64 word \<Rightarrow> timer_state \<Rightarrow> error + timer_state" where
  "timer_msleep F ms s = real_time_sleep F ms 1000 s"

definition timer_usleep :: "int \<Rightarrow> 64 word \<Rightarrow> timer_state \<Rightarrow> error + timer_state" where
  "timer_usleep F us s = real_time_sleep F us (1000 * 1000) s"

definition timer_nsleep :: "int \<Rightarrow> 64 word \<Rightarrow> timer_state \<Rightarrow> error + timer_state" where
  "timer_nsleep F ns s = real_time_sleep F ns (1000 * 1000 * 1000) s"


subsection \<open>too_many_loops and timer_calibrate\<close>

text \<open>
  \<open>too_many_loops\<close> waits for a tick, runs \<open>busy_wait (loops)\<close> and reports whether
  the tick count changed meanwhile. The answer depends on how fast the processor is
  relative to the timer chip, which is outside the program: it is a parameter \<open>clk\<close>,
  asked with the earlier probes and the present loop count. The timer interrupts that
  arrive during the measurement are \<open>timer_interrupt\<close> steps of their own.
\<close>

type_synonym clock = "32 word list \<Rightarrow> 32 word \<Rightarrow> bool"

definition too_many_loops :: "clock \<Rightarrow> 32 word \<Rightarrow> timer_state \<Rightarrow> bool \<times> timer_state" where
  "too_many_loops clk loops s =
     (let s1 = busy_wait (ucast loops) s
      in (clk (probes s) loops, s1\<lparr>probes := probes s @ [loops]\<rparr>))"

text \<open>The \<open>while\<close> loop of \<open>timer_calibrate\<close>.\<close>

function calibrate_double :: "clock \<Rightarrow> timer_state \<Rightarrow> error + timer_state" where
  "calibrate_double clk s =
     (let (too_many, s1) = too_many_loops clk (push_bit 1 (loops_per_tick s)) s
      in if \<not> too_many then
           (let s2 = s1\<lparr>loops_per_tick := push_bit 1 (loops_per_tick s1)\<rparr>
            in if loops_per_tick s2 \<noteq> 0 then calibrate_double clk s2
               else Inl (Assertion_failed ''loops_per_tick != 0''))
         else Inr s1)"
  by pat_completeness auto

termination
proof (relation "measure (\<lambda>(clk, s). LEAST k. push_bit k (loops_per_tick s) = 0)")
  show "wf (measure (\<lambda>(clk :: clock, s). LEAST k. push_bit k (loops_per_tick s) = 0))"
    by simp
next
  fix clk :: clock and s s1 s2 :: timer_state and x :: "bool \<times> timer_state"
    and too_many :: bool
  assume x: "x = too_many_loops clk (push_bit 1 (loops_per_tick s)) s"
    and "(too_many, s1) = x"
    and s2: "s2 = s1\<lparr>loops_per_tick := push_bit 1 (loops_per_tick s1)\<rparr>"
    and nz: "loops_per_tick s2 \<noteq> 0"
  have keep: "loops_per_tick (busy_wait n t) = loops_per_tick t" for n t
    by (induction n t rule: busy_wait.induct) (subst busy_wait.simps, simp)
  from x \<open>(too_many, s1) = x\<close> have s1: "loops_per_tick s1 = loops_per_tick s"
    by (auto simp: too_many_loops_def Let_def keep)
  let ?w = "loops_per_tick s"
  let ?m = "LEAST k. push_bit k ?w = 0"
  have "push_bit (LENGTH(32)) ?w = 0"
    by (rule push_bit_word_beyond) simp
  then have m0: "push_bit ?m ?w = 0"
    by (rule LeastI [of "\<lambda>k. push_bit k ?w = 0"])
  have "?w \<noteq> 0" using nz s2 s1 by auto
  then have "?m \<noteq> 0" using m0 by (auto intro: ccontr)
  then obtain j where j: "?m = Suc j" by (cases ?m) auto
  have "push_bit j (push_bit 1 ?w) = 0"
    using m0 j by simp
  then have "(LEAST k. push_bit k (push_bit 1 ?w) = 0) \<le> j"
    by (rule Least_le)
  then show "((clk, s2), (clk, s))
      \<in> measure (\<lambda>(clk, s). LEAST k. push_bit k (loops_per_tick s) = 0)"
    using j s2 s1 by simp
qed

declare calibrate_double.simps [simp del]

text \<open>
  The \<open>for\<close> loop of \<open>timer_calibrate\<close>. It leaves only when \<open>test_bit\<close> meets
  \<open>high_bit >> 10\<close>; \<open>None\<close> stands for a loop that never does.
\<close>

partial_function (option) calibrate_refine ::
  "clock \<Rightarrow> 32 word \<Rightarrow> 32 word \<Rightarrow> timer_state \<Rightarrow> timer_state option" where
  "calibrate_refine clk high_bit test_bit s =
     (if test_bit \<noteq> drop_bit 10 high_bit then
        (let (too_many, s1) = too_many_loops clk (high_bit OR test_bit) s;
             s2 = (if \<not> too_many
                   then s1\<lparr>loops_per_tick := loops_per_tick s1 OR test_bit\<rparr>
                   else s1)
         in calibrate_refine clk high_bit (drop_bit 1 test_bit) s2)
      else Some s)"

definition timer_calibrate :: "clock \<Rightarrow> int \<Rightarrow> timer_state \<Rightarrow> error + timer_state" where
  "timer_calibrate clk F s =
     (if intr_get_level s \<noteq> INTR_ON
      then Inl (Assertion_failed ''intr_get_level () == INTR_ON'')
      else
        (let s1 = call Printf_calibrating s;
             s2 = s1\<lparr>loops_per_tick := push_bit 10 1\<rparr>
         in case calibrate_double clk s2 of
              Inl e \<Rightarrow> Inl e
            | Inr s3 \<Rightarrow>
                (let high_bit = loops_per_tick s3
                 in case calibrate_refine clk high_bit (drop_bit 1 high_bit) s3 of
                      None \<Rightarrow> Inl No_return
                    | Some s4 \<Rightarrow>
                        Inr (call (Printf_loops_per_s
                                     (ucast (loops_per_tick s4) * of_int F)) s4))))"

subsection \<open>Sequences of operations\<close>

text \<open>
  The operations of the driver, as the rest of the kernel and the interrupt controller
  invoke them. A failed assertion or a trap halts the kernel: the sequence ends there.
  \<open>run\<close> lists the states the driver goes through.
\<close>

datatype op =
    Init
  | Calibrate clock
  | Ticks
  | Elapsed "64 word"
  | Sleep "64 word"
  | Msleep "64 word"
  | Usleep "64 word"
  | Nsleep "64 word"
  | Print_stats
  | Interrupt

fun exec_op :: "int \<Rightarrow> op \<Rightarrow> timer_state \<Rightarrow> error + timer_state" where
  "exec_op F Init s = Inr (timer_init F s)"
| "exec_op F (Calibrate clk) s = timer_calibrate clk F s"
| "exec_op F Ticks s = Inr (snd (timer_ticks s))"
| "exec_op F (Elapsed t) s = Inr (snd (timer_elapsed t s))"
| "exec_op F (Sleep n) s = Inr (timer_sleep n s)"
| "exec_op F (Msleep n) s = timer_msleep F n s"
| "exec_op F (Usleep n) s = timer_usleep F n s"
| "exec_op F (Nsleep n) s = timer_nsleep F n s"
| "exec_op F Print_stats s = Inr (timer_print_stats s)"
| "exec_op F Interrupt s = Inr (timer_interrupt F s)"

fun run :: "int \<Rightarrow> op list \<Rightarrow> timer_state \<Rightarrow> timer_state list" where
  "run F [] s = [s]"
| "run F (x # xs) s =
     s # (case exec_op F x s of Inl e \<Rightarrow> [] | Inr s' \<Rightarrow> run F xs s')"

text \<open>The calls one invocation of the handler adds to the log.\<close>

definition fired :: "int \<Rightarrow> timer_state \<Rightarrow> event list" where
  "fired F s = drop (length (calls s)) (calls (timer_interrupt F s))"

text \<open>The calls \<open>n\<close> consecutive invocations of the handler add to the log.\<close>

definition fired_in :: "nat \<Rightarrow> int \<Rightarrow> timer_state \<Rightarrow> event list" where
  "fired_in n F s = drop (length (calls s)) (calls ((timer_interrupt F ^^ n) s))"


section \<open>Closed forms of the operations\<close>

lemma timer_ticks_eq: "timer_ticks s = (ticks s, s)"
  by (simp add: timer_ticks_def intr_disable_def intr_set_level_def)

lemma timer_elapsed_eq: "timer_elapsed t s = (ticks s - t, s)"
  by (simp add: timer_elapsed_def timer_ticks_eq)

lemma timer_sleep_eq:
  "timer_sleep n s = s\<lparr>calls := calls s @ [Thread_sleep (ticks s + n)]\<rparr>"
  by (simp add: timer_sleep_def timer_ticks_eq call_def)

lemma timer_interrupt_eq:
  "timer_interrupt F s =
     s\<lparr>ticks := ticks s + 1,
       calls := calls s @ [Thread_tick]
         @ (if thread_mlfqs s then
              Mlfqs_increment #
              (if c_mod (ticks s + 1) 4 = 0 then
                 Mlfqs_priority #
                 (if c_mod (ticks s + 1) (of_int F) = 0
                  then [Mlfqs_load_avg, Mlfqs_recalc] else [])
               else [])
            else [])
         @ [Thread_awake (ticks s + 1)]\<rparr>"
  by (simp add: timer_interrupt_def timer_ticks_eq call_def Let_def)

lemma busy_wait_eq:
  "busy_wait loops s = s\<lparr>busy_iters := busy_iters s + nat (sint loops)\<rparr>"
proof (induction loops s rule: busy_wait.induct)
  case (1 loops s)
  show ?case
  proof (cases "0 < sint loops")
    case True
    then have "sint (loops - 1) = sint loops - 1"
      using sint_lt [of loops] by (simp add: sint_word_ariths signed_take_bit_int_eq_self)
    with True 1 show ?thesis
      by (subst busy_wait.simps) (simp add: nat_diff_distrib')
  next
    case False
    then show ?thesis by (subst busy_wait.simps) simp
  qed
qed

lemma sint_ucast_32_64: "sint (ucast (w :: 32 word) :: 64 word) = uint w"
proof -
  have "uint w < 2 ^ 32" using uint_lt2p [of w] by simp
  then have up: "uint w < 2 ^ 63" by simp
  have "signed_take_bit 63 (uint w) = uint w"
  proof (rule signed_take_bit_int_eq_self)
    have "- (2 ^ 63) \<le> (0::int)" by simp
    also have "0 \<le> uint w" by simp
    finally show "- (2 ^ 63) \<le> uint w" .
    show "uint w < 2 ^ 63" by (rule up)
  qed
  then show ?thesis
    by (simp add: sint_uint uint_up_ucast is_up)
qed

lemma too_many_loops_eq:
  "too_many_loops clk loops s =
     (clk (probes s) loops,
      s\<lparr>busy_iters := busy_iters s + unat loops, probes := probes s @ [loops]\<rparr>)"
  by (simp add: too_many_loops_def busy_wait_eq Let_def sint_ucast_32_64)

lemma calibrate_double_keeps:
  "calibrate_double clk s = Inr s' \<Longrightarrow>
     ticks s' = ticks s \<and> thread_mlfqs s' = thread_mlfqs s \<and>
     intr_level s' = intr_level s \<and> calls s' = calls s"
proof (induction clk s rule: calibrate_double.induct)
  case (1 clk s)
  from "1.prems" show ?case
    apply (subst (asm) calibrate_double.simps)
    apply (simp add: too_many_loops_eq Let_def split: if_splits)
    using "1.IH" [OF refl]
    apply (auto simp: too_many_loops_eq)
    done
qed

lemma calibrate_refine_total:
  "j \<le> 10 \<Longrightarrow>
     \<exists>s'. calibrate_refine clk hb (drop_bit j hb) s = Some s' \<and> ticks s' = ticks s"
proof (induction "10 - j" arbitrary: j s)
  case 0
  then have "j = 10" by simp
  then show ?case by (subst calibrate_refine.simps) simp
next
  case (Suc k)
  then have j: "Suc j \<le> 10" and k: "k = 10 - Suc j" by auto
  show ?case
  proof (cases "drop_bit j hb = drop_bit 10 hb")
    case True
    then show ?thesis by (subst calibrate_refine.simps) simp
  next
    case False
    have sh: "drop_bit 1 (drop_bit j hb) = drop_bit (Suc j) hb"
      by simp
    let ?s1 = "s\<lparr>busy_iters := busy_iters s + unat (hb OR drop_bit j hb),
                  probes := probes s @ [hb OR drop_bit j hb]\<rparr>"
    let ?s2 = "?s1\<lparr>loops_per_tick := loops_per_tick ?s1 OR drop_bit j hb\<rparr>"
    from Suc.hyps(1) [OF k j]
    have IH: "\<exists>s'. calibrate_refine clk hb (drop_bit (Suc j) hb) t = Some s'
                \<and> ticks s' = ticks t" for t
      by blast
    show ?thesis
      apply (subst calibrate_refine.simps)
      using False IH [of ?s1] IH [of ?s2]
      apply (simp add: too_many_loops_eq Let_def sh)
      done
  qed
qed

lemma timer_calibrate_ticks:
  assumes a: "timer_calibrate clk F s = Inr s'"
  shows "ticks s' = ticks s"
proof (cases "calibrate_double clk
                (call Printf_calibrating s\<lparr>loops_per_tick := push_bit 10 1\<rparr>)")
  case (Inl e)
  with a show ?thesis by (simp add: timer_calibrate_def Let_def split: if_splits)
next
  case (Inr s3)
  then have t3: "ticks s3 = ticks s"
    using calibrate_double_keeps [OF Inr] by (simp add: call_def)
  obtain s4
    where s4: "calibrate_refine clk (loops_per_tick s3) (drop_bit 1 (loops_per_tick s3)) s3
                 = Some s4"
      and t4: "ticks s4 = ticks s3"
    using calibrate_refine_total [of 1 clk "loops_per_tick s3" s3] by auto
  from a Inr s4 t3 t4 show ?thesis
    by (auto simp: timer_calibrate_def Let_def call_def split: if_splits)
qed

lemma timer_calibrate_returns: "timer_calibrate clk F s \<noteq> Inl No_return"
proof (cases "calibrate_double clk
                (call Printf_calibrating s\<lparr>loops_per_tick := push_bit 10 1\<rparr>)")
  case (Inl e)
  have "calibrate_double clk t \<noteq> Inl No_return" for t
  proof (induction clk t rule: calibrate_double.induct)
    case (1 clk t)
    show ?case
      apply (subst calibrate_double.simps)
      using "1.IH" [OF refl]
      apply (auto simp: too_many_loops_eq Let_def)
      done
  qed
  with Inl show ?thesis
    by (auto simp: timer_calibrate_def Let_def)
next
  case (Inr s3)
  obtain s4
    where "calibrate_refine clk (loops_per_tick s3) (drop_bit 1 (loops_per_tick s3)) s3
             = Some s4"
    using calibrate_refine_total [of 1 clk "loops_per_tick s3" s3] by auto
  with Inr show ?thesis
    by (simp add: timer_calibrate_def Let_def)
qed

lemma real_time_sleep_ticks:
  "real_time_sleep F num denom s = Inr s' \<Longrightarrow> ticks s' = ticks s"
  by (auto simp: real_time_sleep_def timer_sleep_eq busy_wait_eq
           split: sum.splits if_splits)

lemma exec_op_ticks:
  "exec_op F x s = Inr s' \<Longrightarrow> x \<noteq> Interrupt \<Longrightarrow> ticks s' = ticks s"
  by (cases x)
     (auto simp: timer_init_def call_def timer_ticks_eq timer_elapsed_eq timer_sleep_eq
        timer_print_stats_def timer_msleep_def timer_usleep_def timer_nsleep_def Let_def
        dest: timer_calibrate_ticks real_time_sleep_ticks)

section \<open>Signed arithmetic on words\<close>

lemma sint_of_int_64:
  "- (2 ^ 63) \<le> x \<Longrightarrow> x < 2 ^ 63 \<Longrightarrow> sint (word_of_int x :: 64 word) = x"
  by (simp add: sint_sbintrunc' signed_take_bit_int_eq_self)

lemma sint_mult_64:
  "- (2 ^ 63) \<le> sint a * sint b \<Longrightarrow> sint a * sint b < 2 ^ 63 \<Longrightarrow>
     sint (a * b :: 64 word) = sint a * sint b"
  by (simp add: sint_word_ariths signed_take_bit_int_eq_self)

lemma sint_scast_32_64: "sint (scast (w :: 32 word) :: 64 word) = sint w"
  by (rule sint_up_scast) (simp add: is_up)

lemma sint_32_bounds: "- (2 ^ 31) \<le> sint (w :: 32 word)" "sint (w :: 32 word) < 2 ^ 31"
  using sint_ge [of w] sint_lt [of w] by simp_all

lemma sint_64_bounds: "- (2 ^ 63) \<le> sint (w :: 64 word)" "sint (w :: 64 word) < 2 ^ 63"
  using sint_ge [of w] sint_lt [of w] by simp_all

lemma sdiv_abs_le: "\<bar>(x :: int) sdiv y\<bar> \<le> \<bar>x\<bar>"
proof -
  have nn: "0 \<le> \<bar>x\<bar> div \<bar>y\<bar>"
    using div_int_pos_iff by auto
  have le: "\<bar>x\<bar> div \<bar>y\<bar> \<le> \<bar>x\<bar>"
  proof (cases "y = 0")
    case True
    then show ?thesis by simp
  next
    case False
    then have "1 \<le> \<bar>y\<bar>" by simp
    then have "\<bar>x\<bar> div \<bar>y\<bar> \<le> \<bar>x\<bar> div 1"
      by (intro zdiv_mono2) simp_all
    then show ?thesis by simp
  qed
  have "\<bar>x sdiv y\<bar> = \<bar>sgn x\<bar> * \<bar>sgn y\<bar> * (\<bar>x\<bar> div \<bar>y\<bar>)"
    using nn by (simp add: signed_divide_int_def abs_mult)
  also have "\<dots> \<le> \<bar>x\<bar> div \<bar>y\<bar>"
    using nn by (cases "x = 0"; cases "y = 0") (simp_all add: abs_sgn_eq)
  finally show ?thesis using le by simp
qed

lemma smod_abs_less: "y \<noteq> 0 \<Longrightarrow> \<bar>(x :: int) smod y\<bar> < \<bar>y\<bar>"
proof -
  assume "y \<noteq> 0"
  then have lt: "\<bar>x\<bar> mod \<bar>y\<bar> < \<bar>y\<bar>" by simp
  have nn: "0 \<le> \<bar>x\<bar> mod \<bar>y\<bar>" by (simp add: mod_int_pos_iff)
  have "\<bar>x smod y\<bar> = \<bar>sgn x\<bar> * (\<bar>x\<bar> mod \<bar>y\<bar>)"
    using nn by (simp add: signed_modulo_int_def abs_mult)
  with lt nn show ?thesis
    by (cases "x = 0") (simp_all add: abs_sgn_eq)
qed

lemma smod_eq_0_iff: "(x :: int) smod y = 0 \<longleftrightarrow> y dvd x"
  by (auto simp: signed_modulo_int_def sgn_0_0 mod_eq_0_iff_dvd)

lemma sdiv_pos: "0 \<le> x \<Longrightarrow> 0 \<le> y \<Longrightarrow> (x :: int) sdiv y = x div y"
  by (cases "x = 0"; cases "y = 0") (simp_all add: signed_divide_int_def)

lemma sdiv_sign: "(x :: int) \<le> 0 \<Longrightarrow> 0 < y \<Longrightarrow> x sdiv y \<le> 0"
  "0 \<le> x \<Longrightarrow> 0 < y \<Longrightarrow> 0 \<le> x sdiv y"
proof -
  have nn: "0 \<le> \<bar>x\<bar> div \<bar>y\<bar>"
    using div_int_pos_iff by auto
  show "x \<le> 0 \<Longrightarrow> 0 < y \<Longrightarrow> x sdiv y \<le> 0"
    using nn by (cases "x = 0") (simp_all add: signed_divide_int_def mult_le_0_iff)
  show "0 \<le> x \<Longrightarrow> 0 < y \<Longrightarrow> 0 \<le> x sdiv y"
    using nn by (cases "x = 0") (simp_all add: signed_divide_int_def)
qed

lemma c_div_pos:
  fixes a b :: "'a::len word"
  assumes b: "0 < sint b"
  shows "c_div a b = Inr (word_of_int (sint a sdiv sint b))"
    and "sint (word_of_int (sint a sdiv sint b) :: 'a word) = sint a sdiv sint b"
proof -
  have "b \<noteq> 0" using b by auto
  moreover have "b \<noteq> - 1" using b by auto
  ultimately show "c_div a b = Inr (word_of_int (sint a sdiv sint b))"
    by (simp add: c_div_def)
  let ?q = "sint a sdiv sint b"
  have abs: "\<bar>?q\<bar> \<le> \<bar>sint a\<bar>" by (rule sdiv_abs_le)
  have lo: "- (2 ^ (LENGTH('a) - 1)) \<le> sint a" by (rule sint_ge)
  have hi: "sint a < 2 ^ (LENGTH('a) - 1)" by (rule sint_lt)
  have "- (2 ^ (LENGTH('a) - 1)) \<le> ?q \<and> ?q < 2 ^ (LENGTH('a) - 1)"
  proof (cases "0 \<le> sint a")
    case True
    then have "0 \<le> ?q" using b by (simp add: sdiv_sign)
    with abs True lo hi show ?thesis by linarith
  next
    case False
    then have "?q \<le> 0" using b by (simp add: sdiv_sign)
    moreover have "(0::int) < 2 ^ (LENGTH('a) - 1)" by simp
    ultimately show ?thesis using abs False lo hi by linarith
  qed
  then show "sint (word_of_int ?q :: 'a word) = ?q"
    by (simp add: sint_sbintrunc' signed_take_bit_int_eq_self)
qed

lemma c_mod_eq_0_iff:
  fixes a b :: "'a::len word"
  assumes b: "sint b \<noteq> 0"
  shows "c_mod a b = 0 \<longleftrightarrow> sint b dvd sint a"
proof -
  let ?r = "sint a smod sint b"
  have "\<bar>sint b\<bar> \<le> 2 ^ (LENGTH('a) - 1)"
    using sint_ge [of b] sint_lt [of b] by linarith
  also have "\<dots> < (2::int) ^ LENGTH('a)"
    by (rule power_strict_increasing) simp_all
  finally have r: "\<bar>?r\<bar> < 2 ^ LENGTH('a)"
    using smod_abs_less [OF b, of "sint a"] by linarith
  have "(word_of_int ?r :: 'a word) = 0 \<longleftrightarrow> ?r = 0"
  proof
    assume "(word_of_int ?r :: 'a word) = 0"
    then have "(2::int) ^ LENGTH('a) dvd ?r" by (simp add: word_of_int_eq_0_iff)
    with r show "?r = 0"
      using zdvd_not_zless [of "\<bar>?r\<bar>" "2 ^ LENGTH('a)"] by (cases "?r = 0") auto
  qed simp
  then show ?thesis by (simp add: c_mod_def smod_eq_0_iff)
qed

lemma sdiv_mult_abs_le: "\<bar>(x :: int) sdiv y\<bar> * \<bar>y\<bar> \<le> \<bar>x\<bar>"
proof -
  have nn: "0 \<le> \<bar>x\<bar> div \<bar>y\<bar>"
    using div_int_pos_iff by auto
  have "\<bar>x sdiv y\<bar> = \<bar>sgn x\<bar> * \<bar>sgn y\<bar> * (\<bar>x\<bar> div \<bar>y\<bar>)"
    using nn by (simp add: signed_divide_int_def abs_mult)
  also have "\<dots> \<le> \<bar>x\<bar> div \<bar>y\<bar>"
    using nn by (cases "x = 0"; cases "y = 0") (simp_all add: abs_sgn_eq)
  finally have "\<bar>x sdiv y\<bar> * \<bar>y\<bar> \<le> (\<bar>x\<bar> div \<bar>y\<bar>) * \<bar>y\<bar>"
    by (intro mult_right_mono) simp_all
  moreover have "\<bar>x\<bar> div \<bar>y\<bar> * \<bar>y\<bar> + \<bar>x\<bar> mod \<bar>y\<bar> = \<bar>x\<bar>"
    by simp
  moreover have "0 \<le> \<bar>x\<bar> mod \<bar>y\<bar>"
    by (simp add: mod_int_pos_iff)
  ultimately show ?thesis by linarith
qed

lemma sdiv_eq_0_abs_less:
  assumes "(x :: int) sdiv y = 0" and "0 < y"
  shows "\<bar>x\<bar> < y"
proof (cases "x = 0")
  case True
  with assms show ?thesis by simp
next
  case False
  with assms have "\<bar>x\<bar> div y = 0"
    by (auto simp: signed_divide_int_def sgn_0_0)
  with assms show ?thesis
    by (auto simp: zdiv_eq_0_iff)
qed


lemma sub_tick_loops_value:
  fixes F :: int and num :: "64 word" and denom :: "32 word" and lpt :: "32 word"
  assumes F: "TIMER_FREQ_ok F"
    and d: "0 < sint denom"
    and dv: "1000 dvd sint denom"
    and nb: "\<bar>sint num\<bar> \<le> 2 ^ 31"
  defines "L \<equiv> ((uint lpt * sint num) sdiv 1000 * F) sdiv (sint denom sdiv 1000)"
  shows "sub_tick_loops F lpt num denom = Inr (word_of_int L)"
    and "sint (word_of_int L :: 64 word) = L"
    and "sint num \<le> 0 \<Longrightarrow> L \<le> 0"
proof -
  define n where "n = sint num"
  define dd where "dd = sint denom"
  define l where "l = uint lpt"
  from F have Fr: "19 \<le> F" "F \<le> 1000" by (simp_all add: TIMER_FREQ_ok_def)
  then have absF: "\<bar>F\<bar> = F" by linarith
  from Fr have sF: "sint (of_int F :: 64 word) = F"
    by (intro sint_of_int_64) simp_all
  have dpos: "0 < dd" using d by (simp add: dd_def)
  have l0: "0 \<le> l" by (simp add: l_def)
  have "l < 2 ^ 32" using uint_lt2p [of lpt] by (simp add: l_def)
  then have lb: "l \<le> 2 ^ 32 - 1" by simp
  have "\<bar>l * n\<bar> = l * \<bar>n\<bar>" using l0 by (simp add: abs_mult)
  also have "\<dots> \<le> (2 ^ 32 - 1) * 2 ^ 31"
    using lb nb l0 by (intro mult_mono) (simp_all add: n_def)
  also have "\<dots> < 2 ^ 63" by simp
  finally have lnb: "\<bar>l * n\<bar> < 2 ^ 63" .
  have sLN: "sint (ucast lpt * num :: 64 word) = l * n"
    using lnb by (subst sint_mult_64) (simp_all add: sint_ucast_32_64 l_def n_def)
  define A where "A = (l * n) sdiv 1000"
  have divA: "c_div (ucast lpt * num :: 64 word) 1000 = Inr (word_of_int A)"
    and sA: "sint (word_of_int A :: 64 word) = A"
    using c_div_pos [of "1000 :: 64 word" "ucast lpt * num"]
    by (simp_all add: sLN A_def)
  have "\<bar>A\<bar> * \<bar>1000\<bar> \<le> \<bar>l * n\<bar>"
    unfolding A_def by (rule sdiv_mult_abs_le)
  moreover have "\<bar>A\<bar> * F \<le> \<bar>A\<bar> * 1000"
    using Fr by (intro mult_left_mono) simp_all
  ultimately have AF: "\<bar>A * F\<bar> < 2 ^ 63"
    using lnb by (simp add: abs_mult absF)
  have sAF: "sint (word_of_int A * of_int F :: 64 word) = A * F"
    using AF by (subst sint_mult_64) (simp_all add: sA sF)
  define D where "D = dd sdiv 1000"
  have divD: "c_div denom 1000 = Inr (word_of_int D)"
    and sD': "sint (word_of_int D :: 32 word) = D"
    using c_div_pos [of "1000 :: 32 word" denom]
    by (simp_all add: D_def dd_def)
  from dv dpos have "1000 \<le> dd" by (auto dest: zdvd_imp_le simp: dd_def)
  then have Dpos: "0 < D"
    using dpos by (simp add: D_def sdiv_pos pos_imp_zdiv_pos_iff)
  have sDc: "sint (scast (word_of_int D :: 32 word) :: 64 word) = D"
    by (simp add: sint_scast_32_64 sD')
  have Leq: "L = (A * F) sdiv D"
    by (simp add: L_def A_def D_def l_def n_def dd_def)
  have pos: "0 < sint (scast (word_of_int D :: 32 word) :: 64 word)"
    using Dpos by (simp only: sDc)
  have divL: "c_div (word_of_int A * of_int F :: 64 word) (scast (word_of_int D :: 32 word))
                = Inr (word_of_int L)"
    and sL: "sint (word_of_int L :: 64 word) = L"
    using c_div_pos [OF pos, of "word_of_int A * of_int F"]
    by (simp_all only: sDc sAF Leq)
  show "sub_tick_loops F lpt num denom = Inr (word_of_int L)"
    by (simp add: sub_tick_loops_def divA divD divL)
  show "sint (word_of_int L :: 64 word) = L" by (rule sL)
  show "L \<le> 0" if "sint num \<le> 0"
  proof -
    from that l0 have "l * n \<le> 0" by (simp add: n_def mult_le_0_iff)
    then have "A \<le> 0" unfolding A_def by (rule sdiv_sign) simp
    then have "A * F \<le> 0" using Fr by (simp add: mult_le_0_iff)
    then show ?thesis unfolding Leq using Dpos by (rule sdiv_sign)
  qed
qed

lemma real_time_sleep_returns:
  fixes denom :: "32 word"
  assumes on: "intr_level s = INTR_ON"
    and d: "0 < sint denom" and dv: "1000 dvd sint denom"
  shows "\<exists>s'. real_time_sleep F num denom s = Inr s'"
proof -
  have sc: "0 < sint (scast denom :: 64 word)" using d by (simp add: sint_scast_32_64)
  obtain t where t: "c_div (num * of_int F) (scast denom) = Inr t"
    using c_div_pos(1) [OF sc] by blast
  have m: "c_mod denom 1000 = 0"
    using c_mod_eq_0_iff [of "1000 :: 32 word" denom] dv by simp
  obtain a where a: "c_div (ucast (loops_per_tick s) * num :: 64 word) 1000 = Inr a"
    using c_div_pos(1) [of "1000 :: 64 word"] by simp
  have dq: "c_div denom 1000 = Inr (word_of_int (sint denom sdiv 1000))"
    and sdq: "sint (word_of_int (sint denom sdiv 1000) :: 32 word) = sint denom sdiv 1000"
    using c_div_pos [of "1000 :: 32 word" denom] by simp_all
  from dv d have "1000 \<le> sint denom" by (auto dest: zdvd_imp_le)
  then have "0 < sint denom sdiv 1000"
    using d by (simp add: sdiv_pos pos_imp_zdiv_pos_iff)
  then have "0 < sint (scast (word_of_int (sint denom sdiv 1000) :: 32 word) :: 64 word)"
    by (simp only: sint_scast_32_64 sdq)
  then obtain q where q: "c_div (a * of_int F) (scast (word_of_int (sint denom sdiv 1000) :: 32 word)) = Inr q"
    using c_div_pos(1) by blast
  show ?thesis
    using on by (simp add: real_time_sleep_def t m sub_tick_loops_def a dq q intr_get_level_def)
qed

lemma real_time_sleep_negative:
  fixes denom :: "32 word"
  assumes on: "intr_level s = INTR_ON" and F: "TIMER_FREQ_ok F"
    and d: "0 < sint denom" and dv: "1000 dvd sint denom"
    and neg: "sint num < 0" and lo: "- (2 ^ 31) \<le> sint num"
  shows "real_time_sleep F num denom s = Inr s"
proof -
  from F have Fr: "19 \<le> F" "F \<le> 1000" by (simp_all add: TIMER_FREQ_ok_def)
  then have absF: "\<bar>F\<bar> = F" by linarith
  from Fr have sF: "sint (of_int F :: 64 word) = F"
    by (intro sint_of_int_64) simp_all
  have nb: "\<bar>sint num\<bar> \<le> 2 ^ 31" using neg lo by simp
  have "\<bar>sint num * F\<bar> = \<bar>sint num\<bar> * F" by (simp add: abs_mult absF)
  also have "\<dots> \<le> 2 ^ 31 * 1000"
    using nb Fr by (intro mult_mono) simp_all
  also have "\<dots> < 2 ^ 63" by simp
  finally have pb: "\<bar>sint num * F\<bar> < 2 ^ 63" .
  have sP: "sint (num * of_int F) = sint num * F"
    using pb by (subst sint_mult_64) (simp_all add: sF)
  have pneg: "sint num * F \<le> 0" using neg Fr by (simp add: mult_le_0_iff)
  define T where "T = (sint num * F) sdiv sint denom"
  have sc: "0 < sint (scast denom :: 64 word)" using d by (simp add: sint_scast_32_64)
  have divT: "c_div (num * of_int F) (scast denom) = Inr (word_of_int T)"
    and sT: "sint (word_of_int T :: 64 word) = T"
    using c_div_pos [OF sc, of "num * of_int F"] by (simp_all add: sP sint_scast_32_64 T_def)
  have T0: "T \<le> 0" unfolding T_def using pneg d by (rule sdiv_sign)
  have m: "c_mod denom 1000 = 0"
    using c_mod_eq_0_iff [of "1000 :: 32 word" denom] dv by simp
  define L where
    "L = ((uint (loops_per_tick s) * sint num) sdiv 1000 * F) sdiv (sint denom sdiv 1000)"
  have st: "sub_tick_loops F (loops_per_tick s) num denom = Inr (word_of_int L)"
    and sL: "sint (word_of_int L :: 64 word) = L"
    and L0: "L \<le> 0"
    using sub_tick_loops_value [OF F d dv nb, of "loops_per_tick s"] neg
    by (simp_all add: L_def)
  show ?thesis
    using on T0 L0
    by (simp add: real_time_sleep_def divT sT intr_get_level_def m st busy_wait_eq sL)
qed

lemma sint_add_neg:
  fixes t n :: "64 word"
  assumes "sint n < 0" and "- (2 ^ 63) \<le> sint t + sint n"
  shows "sint (t + n) = sint t + sint n"
proof -
  have "sint t + sint n < 2 ^ 63" using sint_64_bounds(2) [of t] assms(1) by linarith
  with assms(2) show ?thesis
    by (simp add: sint_word_ariths signed_take_bit_int_eq_self)
qed

section \<open>Counting the feedback calls over consecutive ticks\<close>

lemma div_step:
  fixes m x :: int
  assumes m: "0 < m"
  shows "(x + 1) div m = x div m + (if m dvd (x + 1) then 1 else 0)"
proof (cases "m dvd (x + 1)")
  case True
  then obtain q where q: "x + 1 = m * q" by (auto simp: dvd_def)
  then have x: "x = m * (q - 1) + (m - 1)" by (simp add: algebra_simps)
  have "x div m = q - 1" using m x by simp
  moreover have "(x + 1) div m = q" using q m by simp
  ultimately show ?thesis using True by simp
next
  case False
  define r where "r = (x + 1) mod m"
  define q where "q = (x + 1) div m"
  have "0 \<le> r" "r < m" using m by (simp_all add: r_def)
  moreover have "r \<noteq> 0" using False by (simp add: r_def dvd_eq_mod_eq_0)
  ultimately have r: "0 < r" "r < m" by simp_all
  have "x + 1 = m * q + r" by (simp add: q_def r_def)
  then have "x = m * q + (r - 1)" by simp
  then have "x div m = q" using m r by simp
  then show ?thesis using False by (simp add: q_def)
qed

lemma interrupts_Suc:
  "(timer_interrupt F ^^ Suc n) s = timer_interrupt F ((timer_interrupt F ^^ n) s)"
  by simp

lemma timer_interrupt_ticks: "ticks (timer_interrupt F s) = ticks s + 1"
  by (simp add: timer_interrupt_eq)

lemma timer_interrupt_mlfqs: "thread_mlfqs (timer_interrupt F s) = thread_mlfqs s"
  by (simp add: timer_interrupt_eq)

lemma timer_interrupt_calls: "calls (timer_interrupt F s) = calls s @ fired F s"
  by (simp add: fired_def timer_interrupt_eq)

lemma interrupts_ticks: "ticks ((timer_interrupt F ^^ n) s) = ticks s + of_nat n"
proof (induction n)
  case 0
  show ?case by simp
next
  case (Suc n)
  then show ?case
    by (simp only: interrupts_Suc timer_interrupt_ticks) simp
qed

lemma interrupts_mlfqs: "thread_mlfqs ((timer_interrupt F ^^ n) s) = thread_mlfqs s"
proof (induction n)
  case 0
  show ?case by simp
next
  case (Suc n)
  then show ?case
    by (simp only: interrupts_Suc timer_interrupt_mlfqs)
qed

lemma interrupts_calls_ex: "\<exists>ys. calls ((timer_interrupt F ^^ n) s) = calls s @ ys"
proof (induction n)
  case 0
  show ?case by simp
next
  case (Suc n)
  then obtain ys where ys: "calls ((timer_interrupt F ^^ n) s) = calls s @ ys" by blast
  show ?case 
    by (simp only: interrupts_Suc timer_interrupt_calls ys) simp
qed

lemma interrupts_calls: "calls ((timer_interrupt F ^^ n) s) = calls s @ fired_in n F s"
proof -
  obtain ys where "calls ((timer_interrupt F ^^ n) s) = calls s @ ys"
    using interrupts_calls_ex by blast
  then show ?thesis by (simp add: fired_in_def)
qed

lemma fired_in_Suc:
  "fired_in (Suc n) F s = fired_in n F s @ fired F ((timer_interrupt F ^^ n) s)"
proof -
  have "calls ((timer_interrupt F ^^ Suc n) s)
      = calls s @ fired_in n F s @ fired F ((timer_interrupt F ^^ n) s)"
    by (simp only: interrupts_Suc timer_interrupt_calls interrupts_calls append_assoc)
  then show ?thesis by (simp add: fired_in_def)
qed

lemma fired_eq:
  "fired F s = [Thread_tick]
         @ (if thread_mlfqs s then
              Mlfqs_increment #
              (if c_mod (ticks s + 1) 4 = 0 then
                 Mlfqs_priority #
                 (if c_mod (ticks s + 1) (of_int F) = 0
                  then [Mlfqs_load_avg, Mlfqs_recalc] else [])
               else [])
            else [])
         @ [Thread_awake (ticks s + 1)]"
  by (simp add: fired_def timer_interrupt_eq)

lemma dvd_uint_iff_sint:
  fixes t :: "64 word"
  shows "4 dvd uint t \<longleftrightarrow> 4 dvd sint t"
proof -
  have "uint t = sint t mod 2 ^ 64"
    by (simp add: uint_sint take_bit_eq_mod)
  moreover have "(4::int) dvd 2 ^ 64" by simp
  ultimately show ?thesis by (simp only: dvd_mod_iff)
qed

lemma c_mod_4: "c_mod (t :: 64 word) 4 = 0 \<longleftrightarrow> 4 dvd uint t"
  using c_mod_eq_0_iff [of "4 :: 64 word" t] by (simp add: dvd_uint_iff_sint)

lemma dvd_uint_add:
  fixes t :: "64 word"
  shows "4 dvd uint (t + of_nat k) \<longleftrightarrow> 4 dvd (uint t + int k)"
proof -
  have "(of_nat k :: 64 word) = word_of_int (int k)" by simp
  then have "uint (of_nat k :: 64 word) = int k mod 2 ^ 64"
    by (simp only: uint_word_of_int) simp
  then have "uint (t + of_nat k) = (uint t + int k) mod 2 ^ 64"
    by (simp add: uint_word_ariths mod_simps)
  moreover have "(4::int) dvd 2 ^ 64" by simp
  ultimately show ?thesis by (simp only: dvd_mod_iff)
qed

lemma count_priority:
  assumes "thread_mlfqs s"
  shows "int (count_list (fired_in n F s) Mlfqs_priority)
           = (uint (ticks s) + int n) div 4 - uint (ticks s) div 4"
proof (induction n)
  case 0
  show ?case by (simp add: fired_in_def)
next
  case (Suc n)
  let ?t = "(timer_interrupt F ^^ n) s"
  define a where "a = uint (ticks s) + int n"
  have a1: "uint (ticks s) + int (Suc n) = a + 1" by (simp add: a_def)
  have m: "thread_mlfqs ?t" using assms by (simp only: interrupts_mlfqs)
  have "ticks ?t + 1 = ticks s + of_nat (Suc n)" by (simp add: interrupts_ticks)
  then have c: "c_mod (ticks ?t + 1) 4 = 0 \<longleftrightarrow> 4 dvd (a + 1)"
    by (simp only: c_mod_4 dvd_uint_add a1)
  have new: "int (count_list (fired F ?t) Mlfqs_priority) = (if 4 dvd (a + 1) then 1 else 0)"
    using m c by (simp add: fired_eq)
  have step: "(a + 1) div 4 = a div 4 + (if 4 dvd (a + 1) then 1 else 0)"
    by (rule div_step) simp
  have old: "int (count_list (fired_in n F s) Mlfqs_priority) = a div 4 - uint (ticks s) div 4"
    using Suc by (simp add: a_def)
  have "int (count_list (fired_in (Suc n) F s) Mlfqs_priority)
          = (a + 1) div 4 - uint (ticks s) div 4"
    by (simp only: fired_in_Suc count_list_append of_nat_add new old step)
  then show ?case by (simp only: a1)
qed

lemma sint_add_nat:
  fixes t :: "64 word"
  assumes "sint t + int k < 2 ^ 63"
  shows "sint (t + of_nat k) = sint t + int k"
proof -
  have "t + of_nat k = word_of_int (sint t + int k)" by simp
  moreover have "- (2 ^ 63) \<le> sint t + int k"
    using sint_64_bounds(1) [of t] by linarith
  ultimately show ?thesis using assms by (simp only: sint_of_int_64)
qed

lemma c_mod_FREQ:
  fixes t :: "64 word"
  assumes "TIMER_FREQ_ok F"
  shows "c_mod t (of_int F) = 0 \<longleftrightarrow> F dvd sint t"
proof -
  from assms have "19 \<le> F" "F \<le> 1000" by (simp_all add: TIMER_FREQ_ok_def)
  then have "sint (of_int F :: 64 word) = F"
    by (intro sint_of_int_64) simp_all
  with \<open>19 \<le> F\<close> show ?thesis
    using c_mod_eq_0_iff [of "of_int F :: 64 word" t] by simp
qed

lemma c_mod_4_sint: "c_mod (t :: 64 word) 4 = 0 \<longleftrightarrow> 4 dvd sint t"
  by (simp only: c_mod_4 dvd_uint_iff_sint)

lemma count_load_avg:
  assumes m: "thread_mlfqs s" and F: "TIMER_FREQ_ok F" and F4: "4 dvd F"
    and r: "sint (ticks s) + int n < 2 ^ 63"
  shows "int (count_list (fired_in n F s) Mlfqs_load_avg)
           = (sint (ticks s) + int n) div F - sint (ticks s) div F
       \<and> count_list (fired_in n F s) Mlfqs_recalc = count_list (fired_in n F s) Mlfqs_load_avg"
  using r
proof (induction n)
  case 0
  show ?case by (simp add: fired_in_def)
next
  case (Suc n)
  let ?t = "(timer_interrupt F ^^ n) s"
  define a where "a = sint (ticks s) + int n"
  have a1: "sint (ticks s) + int (Suc n) = a + 1" by (simp add: a_def)
  from F have Fpos: "0 < F" by (simp add: TIMER_FREQ_ok_def)
  have mt: "thread_mlfqs ?t" using m by (simp only: interrupts_mlfqs)
  have tt: "ticks ?t + 1 = ticks s + of_nat (Suc n)" by (simp add: interrupts_ticks)
  have "sint (ticks s + of_nat (Suc n)) = a + 1"
    using Suc.prems by (simp only: sint_add_nat a1)
  then have st: "sint (ticks ?t + 1) = a + 1" by (simp only: tt)
  have c: "c_mod (ticks ?t + 1) 4 = 0 \<and> c_mod (ticks ?t + 1) (of_int F) = 0 \<longleftrightarrow> F dvd (a + 1)"
    using F4 by (auto simp only: c_mod_4_sint c_mod_FREQ [OF F] st dest: dvd_trans)
  have new: "int (count_list (fired F ?t) Mlfqs_load_avg) = (if F dvd (a + 1) then 1 else 0)"
    "count_list (fired F ?t) Mlfqs_recalc = count_list (fired F ?t) Mlfqs_load_avg"
    using mt c by (auto simp add: fired_eq)
  have step: "(a + 1) div F = a div F + (if F dvd (a + 1) then 1 else 0)"
    using Fpos by (rule div_step)
  have old: "int (count_list (fired_in n F s) Mlfqs_load_avg) = a div F - sint (ticks s) div F"
    "count_list (fired_in n F s) Mlfqs_recalc = count_list (fired_in n F s) Mlfqs_load_avg"
    using Suc by (simp_all add: a_def)
  have "int (count_list (fired_in (Suc n) F s) Mlfqs_load_avg)
          = (a + 1) div F - sint (ticks s) div F"
    by (simp only: fired_in_Suc count_list_append of_nat_add new old step)
  moreover have "count_list (fired_in (Suc n) F s) Mlfqs_recalc
      = count_list (fired_in (Suc n) F s) Mlfqs_load_avg"
    by (simp only: fired_in_Suc count_list_append new old)
  ultimately show ?case by (simp only: a1)
qed

section \<open>The divisor bytes and the tick sequence\<close>

lemma byte_lo:
  fixes count :: "16 word"
  shows "uint (ucast (count AND 0xff) :: 8 word) = uint count mod 256"
proof -
  have "(0xff :: int) = mask 8" by (simp add: mask_eq_exp_minus_1)
  then have "uint count AND 0xff = take_bit 8 (uint count)"
    by (simp only: take_bit_eq_mask)
  then have a: "uint (count AND 0xff) = uint count mod 256"
    by (simp add: unsigned_and_eq take_bit_eq_mod)
  have "uint (ucast (count AND 0xff) :: 8 word) = take_bit 8 (uint (count AND 0xff))"
    by (simp add: unsigned_ucast_eq)
  also have "\<dots> = uint count mod 256"
    by (simp only: a take_bit_eq_mod) simp
  finally show ?thesis .
qed

lemma byte_hi:
  fixes count :: "16 word"
  shows "uint (ucast (drop_bit 8 count) :: 8 word) = uint count div 256"
proof -
  have "uint count < 2 ^ 16" using uint_lt2p [of count] by simp
  then have "uint count div 256 < 256" by simp
  moreover have "0 \<le> uint count div 256" by (simp add: pos_imp_zdiv_nonneg_iff)
  ultimately have b: "uint count div 256 mod 256 = uint count div 256" by simp
  have "uint (drop_bit 8 count) = uint count div 256"
    by (simp add: drop_bit_eq_div uint_div)
  moreover have "uint (ucast (drop_bit 8 count) :: 8 word) = take_bit 8 (uint (drop_bit 8 count))"
    by (simp add: unsigned_ucast_eq)
  ultimately show ?thesis
    by (simp only: take_bit_eq_mod) (simp add: b)
qed

lemma byte_split:
  fixes count :: "16 word"
  shows "uint (ucast (drop_bit 8 count) :: 8 word) * 256 + uint (ucast (count AND 0xff) :: 8 word)
           = uint count"
  by (simp add: byte_lo byte_hi)

lemma round_nearest:
  fixes F N :: int
  assumes F: "0 < F"
  defines "c \<equiv> (N + F div 2) div F"
  shows "\<bar>c * F - N\<bar> \<le> \<bar>k * F - N\<bar>"
proof -
  define h where "h = F div 2"
  define r where "r = (N + h) mod F"
  have r: "0 \<le> r" "r < F" using F by (simp_all add: r_def)
  have h: "2 * h \<le> F" "F \<le> 2 * h + 1" by (simp_all add: h_def)
  have "c * F + r = N + h"
    by (simp add: c_def r_def h_def)
  then have cF: "c * F - N = h - r" by simp
  consider "k = c" | "c + 1 \<le> k" | "k \<le> c - 1" by linarith
  then show ?thesis
  proof cases
    case 1
    then show ?thesis by simp
  next
    case 2
    then have "(c + 1) * F \<le> k * F" using F by (intro mult_right_mono) simp_all
    then have "c * F + F \<le> k * F" by (simp add: algebra_simps)
    with cF r h show ?thesis by linarith
  next
    case 3
    then have "k * F \<le> (c - 1) * F" using F by (intro mult_right_mono) simp_all
    then have "k * F \<le> c * F - F" by (simp add: algebra_simps)
    with cF r h show ?thesis by linarith
  qed
qed


lemma sint_succ:
  fixes t :: "64 word"
  assumes "sint t + 1 < 2 ^ 63"
  shows "sint (t + 1) = sint t + 1"
proof -
  have "- (2 ^ 63) \<le> sint t + 1" using sint_64_bounds(1) [of t] by linarith
  with assms show ?thesis
    by (simp add: sint_word_ariths signed_take_bit_int_eq_self)
qed

lemma run_ticks:
  "sint (ticks s) + int (count_list ops Interrupt) < 2 ^ 63 \<Longrightarrow>
     sorted (map (sint \<circ> ticks) (run F ops s))
     \<and> (\<forall>t \<in> set (run F ops s). sint (ticks s) \<le> sint (ticks t))"
proof (induction ops arbitrary: s)
  case Nil
  show ?case by simp
next
  case (Cons x xs)
  show ?case
  proof (cases "exec_op F x s")
    case (Inl e)
    then show ?thesis by simp
  next
    case (Inr s')
    have step: "sint (ticks s) \<le> sint (ticks s')
        \<and> sint (ticks s') + int (count_list xs Interrupt) < 2 ^ 63"
    proof (cases "x = Interrupt")
      case True
      with Inr have "ticks s' = ticks s + 1" by (auto simp: timer_interrupt_eq)
      moreover have "sint (ticks s) + 1 + int (count_list xs Interrupt) < 2 ^ 63"
        using Cons.prems True by simp
      moreover from this have "sint (ticks s + 1) = sint (ticks s) + 1"
        by (intro sint_succ) linarith
      ultimately show ?thesis by simp
    next
      case False
      with Inr have "ticks s' = ticks s" by (rule exec_op_ticks)
      with Cons.prems False show ?thesis by simp
    qed
    then have pre: "sint (ticks s') + int (count_list xs Interrupt) < 2 ^ 63" by blast
    from Cons.IH [OF pre]
    have IH: "sorted (map (sint \<circ> ticks) (run F xs s'))"
      "\<forall>t \<in> set (run F xs s'). sint (ticks s') \<le> sint (ticks t)"
      by blast+
    from step have le: "sint (ticks s) \<le> sint (ticks s')" by blast
    have "\<forall>t \<in> set (run F xs s'). sint (ticks s) \<le> sint (ticks t)"
      using IH(2) le by fastforce
    with IH(1) Inr show ?thesis by (simp add: sorted_simps comp_def)
  qed
qed


section \<open>The interrupt handler\<close>

text \<open>
  Claim C5. Each invocation of the handler first adds one to the tick counter, then calls
  the scheduler's per-tick hook, then (only with \<open>thread_mlfqs\<close> set) goes through the
  feedback steps, and last calls the sleep-queue release hook with the counter it has
  just incremented. It changes nothing else, and no other operation of the driver writes
  the counter.
\<close>

theorem timer_interrupt_order:
  "timer_interrupt F s =
     s\<lparr>ticks := ticks s + 1,
       calls := calls s @ [Thread_tick]
         @ (if thread_mlfqs s then
              Mlfqs_increment #
              (if c_mod (ticks s + 1) 4 = 0 then
                 Mlfqs_priority #
                 (if c_mod (ticks s + 1) (of_int F) = 0
                  then [Mlfqs_load_avg, Mlfqs_recalc] else [])
               else [])
            else [])
         @ [Thread_awake (ticks s + 1)]\<rparr>
   \<and> (\<forall>x s'. x \<noteq> Interrupt \<and> exec_op F x s = Inr s' \<longrightarrow> ticks s' = ticks s)"
  using timer_interrupt_eq [of F s] exec_op_ticks [of F _ s] by blast

theorem timer_interrupt_order_witness:
  "Sleep 5 \<noteq> Interrupt
   \<and> exec_op 100 (Sleep 5) (boot_state False) = Inr (timer_sleep 5 (boot_state False))
   \<and> ticks (timer_sleep 5 (boot_state False)) = ticks (boot_state False)
   \<and> ticks (timer_interrupt 100 (boot_state False)) = 1
   \<and> calls (timer_interrupt 100 (boot_state False)) = [Thread_tick, Thread_awake 1]
   \<and> calls (timer_interrupt 100 (boot_state True))
       = [Thread_tick, Mlfqs_increment, Thread_awake 1]"
proof -
  have ne: "Sleep 5 \<noteq> Interrupt" by simp
  have ex: "exec_op 100 (Sleep 5) (boot_state False) = Inr (timer_sleep 5 (boot_state False))"
    by simp
  have c: "c_mod (1 :: 64 word) 4 \<noteq> 0"
    by (simp add: c_mod_def smod_int_alt_def)
  from timer_interrupt_order [of 100 "boot_state False"] ne ex
  have "ticks (timer_sleep 5 (boot_state False)) = ticks (boot_state False)"
    by blast
  moreover have "ticks (timer_interrupt 100 (boot_state False)) = 1"
    and "calls (timer_interrupt 100 (boot_state False)) = [Thread_tick, Thread_awake 1]"
    using timer_interrupt_order [of 100 "boot_state False"]
    by (simp_all add: boot_state_def)
  moreover have "calls (timer_interrupt 100 (boot_state True))
      = [Thread_tick, Mlfqs_increment, Thread_awake 1]"
    using timer_interrupt_order [of 100 "boot_state True"] c
    by (simp add: boot_state_def)
  ultimately show ?thesis using ne ex by blast
qed

text \<open>
  Claim C1, as the code has it. With \<open>thread_mlfqs\<close> set, the invocation that brings the
  counter to \<open>t\<close> calls \<open>mlfqs_priority\<close> exactly when 4 divides \<open>t\<close>. It calls
  \<open>mlfqs_load_avg\<close> only when \<open>TIMER_FREQ\<close> divides \<open>t\<close>, always followed at once by
  \<open>mlfqs_recalc\<close>, and, when 4 divides \<open>TIMER_FREQ\<close>, exactly when \<open>TIMER_FREQ\<close> divides
  \<open>t\<close>. Over any \<open>4 * TIMER_FREQ\<close> consecutive ticks \<open>mlfqs_priority\<close> is called
  \<open>TIMER_FREQ\<close> times; when 4 divides \<open>TIMER_FREQ\<close> and the counter does not pass its
  largest value meanwhile, \<open>mlfqs_load_avg\<close> and \<open>mlfqs_recalc\<close> are called four times each.
\<close>

theorem feedback_cadence:
  assumes m: "thread_mlfqs s" and F: "TIMER_FREQ_ok F"
  shows
    "(Mlfqs_priority \<in> set (fired F s) \<longleftrightarrow> 4 dvd sint (ticks s + 1))
     \<and> (Mlfqs_load_avg \<in> set (fired F s) \<longrightarrow>
          F dvd sint (ticks s + 1)
          \<and> fired F s = [Thread_tick, Mlfqs_increment, Mlfqs_priority, Mlfqs_load_avg,
                         Mlfqs_recalc, Thread_awake (ticks s + 1)])
     \<and> (Mlfqs_recalc \<in> set (fired F s) \<longleftrightarrow> Mlfqs_load_avg \<in> set (fired F s))
     \<and> (4 dvd F \<longrightarrow> (Mlfqs_load_avg \<in> set (fired F s) \<longleftrightarrow> F dvd sint (ticks s + 1)))
     \<and> count_list (fired_in (nat (4 * F)) F s) Mlfqs_priority = nat F
     \<and> (4 dvd F \<and> sint (ticks s) + 4 * F < 2 ^ 63 \<longrightarrow>
          count_list (fired_in (nat (4 * F)) F s) Mlfqs_load_avg = 4
          \<and> count_list (fired_in (nat (4 * F)) F s) Mlfqs_recalc = 4)"
proof -
  from F have Fpos: "0 < F" by (simp add: TIMER_FREQ_ok_def)
  note cm = c_mod_4_sint [of "ticks s + 1"] c_mod_FREQ [OF F, of "ticks s + 1"]
  have p1: "Mlfqs_priority \<in> set (fired F s) \<longleftrightarrow> 4 dvd sint (ticks s + 1)"
    using m cm by (simp add: fired_eq)
  have p2: "F dvd sint (ticks s + 1)
          \<and> fired F s = [Thread_tick, Mlfqs_increment, Mlfqs_priority, Mlfqs_load_avg,
                         Mlfqs_recalc, Thread_awake (ticks s + 1)]"
    if "Mlfqs_load_avg \<in> set (fired F s)"
    using that m cm by (simp add: fired_eq split: if_splits)
  have p3: "Mlfqs_recalc \<in> set (fired F s) \<longleftrightarrow> Mlfqs_load_avg \<in> set (fired F s)"
    using m by (simp add: fired_eq)
  have p4: "Mlfqs_load_avg \<in> set (fired F s) \<longleftrightarrow> F dvd sint (ticks s + 1)" if "4 dvd F"
  proof -
    have "4 dvd sint (ticks s + 1)" if "F dvd sint (ticks s + 1)"
      using \<open>4 dvd F\<close> that by (rule dvd_trans)
    then show ?thesis using m cm by (auto simp add: fired_eq)
  qed
  have "int (count_list (fired_in (nat (4 * F)) F s) Mlfqs_priority)
          = (uint (ticks s) + 4 * F) div 4 - uint (ticks s) div 4"
    using count_priority [OF m, of "nat (4 * F)" F] Fpos by simp
  also have "\<dots> = F" by simp
  finally have p5: "count_list (fired_in (nat (4 * F)) F s) Mlfqs_priority = nat F"
    by simp
  have p6: "count_list (fired_in (nat (4 * F)) F s) Mlfqs_load_avg = 4
          \<and> count_list (fired_in (nat (4 * F)) F s) Mlfqs_recalc = 4"
    if F4: "4 dvd F" and r: "sint (ticks s) + 4 * F < 2 ^ 63"
  proof -
    have r': "sint (ticks s) + int (nat (4 * F)) < 2 ^ 63" using r Fpos by simp
    note c = count_load_avg [OF m F F4 r']
    from c have "int (count_list (fired_in (nat (4 * F)) F s) Mlfqs_load_avg)
        = (sint (ticks s) + 4 * F) div F - sint (ticks s) div F"
      using Fpos by simp
    also have "\<dots> = 4" using Fpos by simp
    finally have "count_list (fired_in (nat (4 * F)) F s) Mlfqs_load_avg = 4" by simp
    with c show ?thesis by simp
  qed
  from p1 p2 p3 p4 p5 p6 show ?thesis by blast
qed

theorem feedback_cadence_witness:
  "thread_mlfqs ((boot_state True)\<lparr>ticks := 99\<rparr>)
   \<and> TIMER_FREQ_ok 100
   \<and> (4 :: int) dvd 100
   \<and> (100 :: int) dvd sint (ticks ((boot_state True)\<lparr>ticks := 99\<rparr>) + 1)
   \<and> sint (ticks ((boot_state True)\<lparr>ticks := 99\<rparr>)) + 4 * 100 < 2 ^ 63
   \<and> Mlfqs_priority \<in> set (fired 100 ((boot_state True)\<lparr>ticks := 99\<rparr>))
   \<and> fired 100 ((boot_state True)\<lparr>ticks := 99\<rparr>)
       = [Thread_tick, Mlfqs_increment, Mlfqs_priority, Mlfqs_load_avg, Mlfqs_recalc,
          Thread_awake 100]
   \<and> count_list (fired_in 400 100 ((boot_state True)\<lparr>ticks := 99\<rparr>)) Mlfqs_priority = 100
   \<and> count_list (fired_in 400 100 ((boot_state True)\<lparr>ticks := 99\<rparr>)) Mlfqs_load_avg = 4
   \<and> count_list (fired_in 400 100 ((boot_state True)\<lparr>ticks := 99\<rparr>)) Mlfqs_recalc = 4"
proof -
  let ?s = "(boot_state True)\<lparr>ticks := 99\<rparr>"
  have m: "thread_mlfqs ?s" by (simp add: boot_state_def)
  have F: "TIMER_FREQ_ok 100" by (simp add: TIMER_FREQ_ok_def)
  have h1: "(4 :: int) dvd 100" by simp
  have h2: "(100 :: int) dvd sint (ticks ?s + 1)" by simp
  have h3: "sint (ticks ?s) + 4 * 100 < 2 ^ 63" by simp
  note t = feedback_cadence [OF m F]
  have la: "Mlfqs_load_avg \<in> set (fired 100 ?s)" using t h1 h2 by blast
  have "(4 :: int) dvd sint (ticks ?s + 1)" by simp
  then have a: "Mlfqs_priority \<in> set (fired 100 ?s)" using t by blast
  have b: "fired 100 ?s = [Thread_tick, Mlfqs_increment, Mlfqs_priority, Mlfqs_load_avg,
                          Mlfqs_recalc, Thread_awake 100]"
    using t la by simp
  have n: "nat (4 * 100) = 400" by simp
  have c: "count_list (fired_in 400 100 ?s) Mlfqs_priority = 100"
    using t n by simp
  have d: "count_list (fired_in 400 100 ?s) Mlfqs_load_avg = 4
         \<and> count_list (fired_in 400 100 ?s) Mlfqs_recalc = 4"
    using t h1 h3 n by simp
  from m F h1 h2 h3 a b c d show ?thesis by blast
qed

text \<open>
  Claim C1 as the specification words it fails twice. The test of \<open>TIMER_FREQ\<close> is
  nested in the test of 4: at 19 Hz, tick 19 is a multiple of \<open>TIMER_FREQ\<close> but not of
  4, and \<open>mlfqs_load_avg\<close> is not called. At 100 Hz the first 400 ticks call
  \<open>mlfqs_load_avg\<close> and \<open>mlfqs_recalc\<close> four times each, not once.
\<close>

theorem feedback_cadence_counterexample:
  "TIMER_FREQ_ok 19
   \<and> thread_mlfqs ((boot_state True)\<lparr>ticks := 18\<rparr>)
   \<and> c_mod (ticks ((boot_state True)\<lparr>ticks := 18\<rparr>) + 1) (of_int 19) = 0
   \<and> c_mod (ticks ((boot_state True)\<lparr>ticks := 18\<rparr>) + 1) 4 \<noteq> 0
   \<and> fired 19 ((boot_state True)\<lparr>ticks := 18\<rparr>)
       = [Thread_tick, Mlfqs_increment, Thread_awake 19]
   \<and> TIMER_FREQ_ok 100
   \<and> thread_mlfqs (boot_state True)
   \<and> count_list (fired_in (4 * 100) 100 (boot_state True)) Mlfqs_load_avg = 4
   \<and> count_list (fired_in (4 * 100) 100 (boot_state True)) Mlfqs_recalc = 4"
proof -
  let ?s = "(boot_state True)\<lparr>ticks := 18\<rparr>"
  have a: "TIMER_FREQ_ok 19" "TIMER_FREQ_ok 100" by (simp_all add: TIMER_FREQ_ok_def)
  have b: "thread_mlfqs ?s" "thread_mlfqs (boot_state True)" by (simp_all add: boot_state_def)
  have c: "c_mod (ticks ?s + 1) (of_int 19) = 0"
    by (simp add: c_mod_def signed_modulo_int_def)
  have d: "c_mod (ticks ?s + 1) 4 \<noteq> 0"
    by (simp add: c_mod_def signed_modulo_int_def)
  have e: "fired 19 ?s = [Thread_tick, Mlfqs_increment, Thread_awake 19]"
    using b(1) d by (simp add: fired_eq)
  have r: "sint (ticks (boot_state True)) + int (4 * 100) < 2 ^ 63"
    by (simp add: boot_state_def)
  have "int (count_list (fired_in (4 * 100) 100 (boot_state True)) Mlfqs_load_avg) = 4"
    "count_list (fired_in (4 * 100) 100 (boot_state True)) Mlfqs_recalc
       = count_list (fired_in (4 * 100) 100 (boot_state True)) Mlfqs_load_avg"
    using count_load_avg [OF b(2) a(2) _ r] by (simp_all add: boot_state_def)
  then have f: "count_list (fired_in (4 * 100) 100 (boot_state True)) Mlfqs_load_avg = 4"
    "count_list (fired_in (4 * 100) 100 (boot_state True)) Mlfqs_recalc = 4"
    by simp_all
  from a b c d e f show ?thesis by blast
qed

section \<open>timer_sleep\<close>

text \<open>
  Claim C6. For every \<open>n\<close>, \<open>timer_sleep (n)\<close> reads the current tick \<open>c\<close> and calls
  \<open>thread_sleep\<close> exactly once, with \<open>c + n\<close>, changing nothing else; with \<open>n = 0\<close> the
  wake time handed over is the current tick itself.
\<close>

theorem timer_sleep_wake_time:
  "fst (timer_ticks s) = ticks s
   \<and> timer_sleep n s = s\<lparr>calls := calls s @ [Thread_sleep (ticks s + n)]\<rparr>
   \<and> timer_sleep 0 s = s\<lparr>calls := calls s @ [Thread_sleep (ticks s)]\<rparr>"
  by (simp add: timer_ticks_eq timer_sleep_eq)


section \<open>real_time_sleep\<close>

text \<open>
  Claim C4. Called with interrupts on, a positive denominator and a product
  \<open>num * TIMER_FREQ\<close> that fits in 64 bits, \<open>real_time_sleep\<close> computes
  \<open>T = num * TIMER_FREQ / denom\<close>, rounded towards zero. If \<open>T > 0\<close> it hands \<open>T\<close> to
  \<open>timer_sleep\<close>. If \<open>T = 0\<close> and 1000 divides \<open>denom\<close> it runs \<open>busy_wait\<close> for
  \<open>loops_per_tick * num / 1000 * TIMER_FREQ / (denom / 1000)\<close> iterations, every division
  rounded towards zero and none of the products overflowing. If \<open>T \<le> 0\<close> and 1000 does
  not divide \<open>denom\<close> the assertion \<open>denom % 1000 == 0\<close> fails. For one millisecond at
  100 Hz, \<open>T = 0\<close> and \<open>busy_wait\<close> runs \<open>loops_per_tick / 1000 * 100\<close> iterations,
  at least 100 of them once \<open>loops_per_tick\<close> is 1000 or more.
\<close>

theorem real_time_sleep_dispatch:
  fixes F :: int and num :: "64 word" and denom :: "32 word"
  assumes on: "intr_level s = INTR_ON"
    and F: "TIMER_FREQ_ok F"
    and d: "0 < sint denom"
    and lo: "- (2 ^ 63) \<le> sint num * F"
    and hi: "sint num * F < 2 ^ 63"
  shows
    "(let T = (sint num * F) sdiv sint denom;
          L = ((uint (loops_per_tick s) * sint num) sdiv 1000 * F) sdiv (sint denom sdiv 1000)
      in (0 < T \<longrightarrow>
            real_time_sleep F num denom s = Inr (timer_sleep (word_of_int T) s))
       \<and> (T = 0 \<and> 1000 dvd sint denom \<longrightarrow>
            real_time_sleep F num denom s = Inr (busy_wait (word_of_int L) s)
            \<and> busy_wait (word_of_int L) s = s\<lparr>busy_iters := busy_iters s + nat L\<rparr>)
       \<and> (T \<le> 0 \<and> \<not> 1000 dvd sint denom \<longrightarrow>
            real_time_sleep F num denom s = Inl (Assertion_failed ''denom % 1000 == 0''))
       \<and> (F = 100 \<and> num = 1 \<and> denom = 1000 \<longrightarrow>
            T = 0 \<and>
            real_time_sleep F num denom s =
              Inr (s\<lparr>busy_iters :=
                       busy_iters s + nat (uint (loops_per_tick s) div 1000 * 100)\<rparr>)
            \<and> (1000 \<le> uint (loops_per_tick s) \<longrightarrow>
                 100 \<le> nat (uint (loops_per_tick s) div 1000 * 100))))"
proof -
  define n where "n = sint num"
  define dd where "dd = sint denom"
  define l where "l = uint (loops_per_tick s)"
  define T where "T = (n * F) sdiv dd"
  define L where "L = ((l * n) sdiv 1000 * F) sdiv (dd sdiv 1000)"
  from F have Fr: "19 \<le> F" "F \<le> 1000" by (simp_all add: TIMER_FREQ_ok_def)
  then have absF: "\<bar>F\<bar> = F" by linarith
  from Fr have sF: "sint (of_int F :: 64 word) = F"
    by (intro sint_of_int_64) simp_all
  have sP: "sint (num * of_int F) = n * F"
    using lo hi by (simp add: sint_mult_64 sF n_def)
  have sD: "sint (scast denom :: 64 word) = dd"
    by (simp add: sint_scast_32_64 dd_def)
  have dpos: "0 < dd" using d by (simp add: dd_def)
  have divT: "c_div (num * of_int F) (scast denom) = Inr (word_of_int T)"
    and sT: "sint (word_of_int T :: 64 word) = T"
    using c_div_pos [of "scast denom :: 64 word" "num * of_int F"] dpos
    by (simp_all add: sP sD T_def)
  have s1000: "sint (1000 :: 32 word) = 1000" "sint (1000 :: 64 word) = 1000"
    by simp_all
  have modD: "c_mod denom 1000 = 0 \<longleftrightarrow> 1000 dvd dd"
    using c_mod_eq_0_iff [of "1000 :: 32 word" denom] by (simp add: dd_def)
  have c1: "real_time_sleep F num denom s = Inr (timer_sleep (word_of_int T) s)" if "0 < T"
    using that on by (simp add: real_time_sleep_def divT sT intr_get_level_def)
  have c3: "real_time_sleep F num denom s = Inl (Assertion_failed ''denom % 1000 == 0'')"
    if "T \<le> 0" "\<not> 1000 dvd dd"
    using that on by (simp add: real_time_sleep_def divT sT intr_get_level_def modD)
  have c2: "real_time_sleep F num denom s = Inr (busy_wait (word_of_int L) s)
            \<and> busy_wait (word_of_int L) s = s\<lparr>busy_iters := busy_iters s + nat L\<rparr>"
    if T0: "T = 0" and dv: "1000 dvd dd"
  proof -
    have "\<bar>n * F\<bar> < dd"
      using T0 dpos unfolding T_def by (rule sdiv_eq_0_abs_less)
    moreover have "\<bar>n\<bar> * 1 \<le> \<bar>n\<bar> * F"
      using Fr by (intro mult_left_mono) simp_all
    moreover have "dd < 2 ^ 31"
      using sint_32_bounds(2) [of denom] by (simp add: dd_def)
    ultimately have nb: "\<bar>sint num\<bar> \<le> 2 ^ 31"
      by (simp add: abs_mult absF n_def)
    from dv have dv': "1000 dvd sint denom" by (simp add: dd_def)
    have "sub_tick_loops F (loops_per_tick s) num denom = Inr (word_of_int L)"
      and sL: "sint (word_of_int L :: 64 word) = L"
      using sub_tick_loops_value(1,2) [OF F d dv' nb, of "loops_per_tick s"]
      by (simp_all add: L_def l_def n_def dd_def)
    then show ?thesis
      using T0 on dv
      by (simp add: real_time_sleep_def divT intr_get_level_def modD busy_wait_eq sL)
  qed
  have c5: "100 \<le> nat (l div 1000 * 100)" if "1000 \<le> l"
  proof -
    from that have "1000 div 1000 \<le> l div 1000" by (intro zdiv_mono1) simp_all
    then show ?thesis by simp
  qed
  have c4: "T = 0 \<and> real_time_sleep F num denom s =
              Inr (s\<lparr>busy_iters := busy_iters s + nat (l div 1000 * 100)\<rparr>)"
    if "F = 100" "num = 1" "denom = 1000"
  proof -
    have T0: "T = 0"
      using that by (simp add: T_def n_def dd_def signed_divide_int_def)
    have "1000 dvd dd" using that by (simp add: dd_def)
    moreover have "L = l div 1000 * 100"
      using that by (simp add: L_def n_def dd_def l_def sdiv_pos)
    ultimately show ?thesis using c2 T0 by simp
  qed
  show ?thesis
    using c1 c2 c3 c4 c5
    unfolding Let_def T_def L_def n_def dd_def l_def by blast
qed

theorem real_time_sleep_dispatch_witness:
  "intr_level ((boot_state False)\<lparr>intr_level := INTR_ON, loops_per_tick := 2046\<rparr>) = INTR_ON
   \<and> TIMER_FREQ_ok 100
   \<and> 0 < sint (1000 :: 32 word) \<and> 0 < sint (1500 :: 32 word)
   \<and> - (2 ^ 63) \<le> sint (1 :: 64 word) * 100 \<and> sint (1 :: 64 word) * 100 < 2 ^ 63
   \<and> - (2 ^ 63) \<le> sint (1000 :: 64 word) * 100 \<and> sint (1000 :: 64 word) * 100 < 2 ^ 63
   \<and> real_time_sleep 100 1000 1000
         ((boot_state False)\<lparr>intr_level := INTR_ON, loops_per_tick := 2046\<rparr>)
       = Inr (timer_sleep 100
               ((boot_state False)\<lparr>intr_level := INTR_ON, loops_per_tick := 2046\<rparr>))
   \<and> real_time_sleep 100 1 1000
         ((boot_state False)\<lparr>intr_level := INTR_ON, loops_per_tick := 2046\<rparr>)
       = Inr ((boot_state False)\<lparr>intr_level := INTR_ON, loops_per_tick := 2046,
                                  busy_iters := 200\<rparr>)
   \<and> real_time_sleep 100 1 1500
         ((boot_state False)\<lparr>intr_level := INTR_ON, loops_per_tick := 2046\<rparr>)
       = Inl (Assertion_failed ''denom % 1000 == 0'')"
proof -
  let ?s = "(boot_state False)\<lparr>intr_level := INTR_ON, loops_per_tick := 2046\<rparr>"
  have on: "intr_level ?s = INTR_ON" by simp
  have F: "TIMER_FREQ_ok 100" by (simp add: TIMER_FREQ_ok_def)
  have d1: "0 < sint (1000 :: 32 word)" and d2: "0 < sint (1500 :: 32 word)" by simp_all
  have r1: "- (2 ^ 63) \<le> sint (1 :: 64 word) * 100" "sint (1 :: 64 word) * 100 < 2 ^ 63"
    and r2: "- (2 ^ 63) \<le> sint (1000 :: 64 word) * 100" "sint (1000 :: 64 word) * 100 < 2 ^ 63"
    by simp_all
  have a: "real_time_sleep 100 1000 1000 ?s = Inr (timer_sleep 100 ?s)"
    using real_time_sleep_dispatch [OF on F d1 r2]
    by (simp add: Let_def signed_divide_int_def)
  have b: "real_time_sleep 100 1 1000 ?s = Inr (?s\<lparr>busy_iters := 200\<rparr>)"
    using real_time_sleep_dispatch [OF on F d1 r1]
    by (simp add: Let_def signed_divide_int_def boot_state_def)
  have c: "real_time_sleep 100 1 1500 ?s = Inl (Assertion_failed ''denom % 1000 == 0'')"
    using real_time_sleep_dispatch [OF on F d2 r1]
    by (simp add: Let_def signed_divide_int_def)
  from on F d1 d2 r1 r2 a b c show ?thesis by blast
qed

section \<open>busy_wait\<close>

text \<open>
  Claim C10. \<open>busy_wait\<close> returns for every 64-bit argument, after exactly
  \<open>max (loops, 0)\<close> iterations: none when \<open>loops\<close> is zero or negative. So the sub-tick
  branch of \<open>real_time_sleep\<close>, when the loop count it computes is not positive, returns
  with the state as it was.
\<close>

theorem busy_wait_iterations:
  "busy_wait loops s = s\<lparr>busy_iters := busy_iters s + nat (max (sint loops) 0)\<rparr>
   \<and> (sint loops \<le> 0 \<longrightarrow> busy_wait loops s = s)
   \<and> (intr_level s = INTR_ON
        \<and> c_div (num * of_int F) (scast denom) = Inr t \<and> sint t \<le> 0
        \<and> c_mod denom 1000 = 0
        \<and> sub_tick_loops F (loops_per_tick s) num denom = Inr n \<and> sint n \<le> 0
      \<longrightarrow> real_time_sleep F num denom s = Inr s)"
proof -
  have "nat (max (sint loops) 0) = nat (sint loops)" by simp
  then have a: "busy_wait loops s = s\<lparr>busy_iters := busy_iters s + nat (max (sint loops) 0)\<rparr>"
    by (simp only: busy_wait_eq)
  have b: "busy_wait w s = s" if "sint w \<le> 0" for w
    using that by (simp add: busy_wait_eq)
  show ?thesis using a b
    by (auto simp: real_time_sleep_def intr_get_level_def)
qed

theorem busy_wait_iterations_witness:
  "sint (- 5 :: 64 word) \<le> 0
   \<and> busy_wait (- 5) (boot_state False) = boot_state False
   \<and> busy_wait 7 (boot_state False) = (boot_state False)\<lparr>busy_iters := 7\<rparr>
   \<and> intr_level ((boot_state False)\<lparr>intr_level := INTR_ON, loops_per_tick := 2046\<rparr>) = INTR_ON
   \<and> c_div ((- 1) * of_int 100 :: 64 word) (scast (1000 :: 32 word)) = Inr 0
   \<and> sint (0 :: 64 word) \<le> 0
   \<and> c_mod (1000 :: 32 word) 1000 = 0
   \<and> sub_tick_loops 100
         (loops_per_tick ((boot_state False)\<lparr>intr_level := INTR_ON, loops_per_tick := 2046\<rparr>))
         (- 1) 1000 = Inr (- 200)
   \<and> sint (- 200 :: 64 word) \<le> 0
   \<and> real_time_sleep 100 (- 1) 1000
         ((boot_state False)\<lparr>intr_level := INTR_ON, loops_per_tick := 2046\<rparr>)
       = Inr ((boot_state False)\<lparr>intr_level := INTR_ON, loops_per_tick := 2046\<rparr>)"
proof -
  let ?s = "(boot_state False)\<lparr>intr_level := INTR_ON, loops_per_tick := 2046\<rparr>"
  have h1: "sint (- 5 :: 64 word) \<le> 0" by simp
  have h2: "intr_level ?s = INTR_ON" by simp
  have h3: "c_div ((- 1) * of_int 100 :: 64 word) (scast (1000 :: 32 word)) = Inr 0"
    by (simp add: c_div_def signed_divide_int_def)
  have h4: "sint (0 :: 64 word) \<le> 0" by simp
  have h5: "c_mod (1000 :: 32 word) 1000 = 0"
    by (simp add: c_mod_def signed_modulo_int_def)
  have h6: "sub_tick_loops 100 (loops_per_tick ?s) (- 1) 1000 = Inr (- 200)"
    by (simp add: sub_tick_loops_def c_div_def signed_divide_int_def)
  have h7: "sint (- 200 :: 64 word) \<le> 0" by simp
  have a: "busy_wait (- 5) (boot_state False) = boot_state False"
    using busy_wait_iterations [of "- 5" "boot_state False"] h1 by blast
  have b: "busy_wait 7 (boot_state False) = (boot_state False)\<lparr>busy_iters := 7\<rparr>"
    using busy_wait_iterations [of 7 "boot_state False"] by (simp add: boot_state_def)
  have c: "real_time_sleep 100 (- 1) 1000 ?s = Inr ?s"
    using busy_wait_iterations [of _ ?s "- 1" 100 1000 0 "- 200"] h2 h3 h4 h5 h6 h7 by blast
  from h1 h2 h3 h4 h5 h6 h7 a b c show ?thesis by blast
qed

section \<open>Sleeping with a negative duration, or with interrupts off\<close>

text \<open>
  Claim C7, as the code has it. No sleep function checks the sign of its argument. With
  \<open>n < 0\<close>, \<open>timer_sleep\<close> hands \<open>thread_sleep\<close> the wake time \<open>c + n\<close>, which lies
  before the current tick \<open>c\<close> unless the sum wraps around. \<open>timer_msleep\<close>,
  \<open>timer_usleep\<close> and \<open>timer_nsleep\<close>, called with interrupts on, return without a failed
  assertion; for \<open>n\<close> down to \<open>-2^31\<close> they return at once and leave the state as it
  was.
\<close>

theorem negative_sleep_returns:
  assumes neg: "sint n < 0"
  shows
    "timer_sleep n s = s\<lparr>calls := calls s @ [Thread_sleep (ticks s + n)]\<rparr>
     \<and> (- (2 ^ 63) \<le> sint (ticks s) + sint n \<longrightarrow> sint (ticks s + n) < sint (ticks s))
     \<and> (intr_level s = INTR_ON \<longrightarrow>
          (\<exists>s'. timer_msleep F n s = Inr s')
          \<and> (\<exists>s'. timer_usleep F n s = Inr s')
          \<and> (\<exists>s'. timer_nsleep F n s = Inr s'))
     \<and> (intr_level s = INTR_ON \<and> TIMER_FREQ_ok F \<and> - (2 ^ 31) \<le> sint n \<longrightarrow>
          timer_msleep F n s = Inr s
          \<and> timer_usleep F n s = Inr s
          \<and> timer_nsleep F n s = Inr s)"
proof -
  have d: "0 < sint (1000 :: 32 word)" "0 < sint (1000 * 1000 :: 32 word)"
    "0 < sint (1000 * 1000 * 1000 :: 32 word)"
    by simp_all
  have dv: "1000 dvd sint (1000 :: 32 word)" "1000 dvd sint (1000 * 1000 :: 32 word)"
    "1000 dvd sint (1000 * 1000 * 1000 :: 32 word)"
    by simp_all
  have a: "timer_sleep n s = s\<lparr>calls := calls s @ [Thread_sleep (ticks s + n)]\<rparr>"
    by (rule timer_sleep_eq)
  have b: "sint (ticks s + n) < sint (ticks s)" if "- (2 ^ 63) \<le> sint (ticks s) + sint n"
    using sint_add_neg [OF neg that] neg by simp
  have c: "(\<exists>s'. timer_msleep F n s = Inr s') \<and> (\<exists>s'. timer_usleep F n s = Inr s')
           \<and> (\<exists>s'. timer_nsleep F n s = Inr s')" if "intr_level s = INTR_ON"
    unfolding timer_msleep_def timer_usleep_def timer_nsleep_def
    using real_time_sleep_returns [OF that d(1) dv(1)]
      real_time_sleep_returns [OF that d(2) dv(2)]
      real_time_sleep_returns [OF that d(3) dv(3)]
    by blast
  have e: "timer_msleep F n s = Inr s \<and> timer_usleep F n s = Inr s \<and> timer_nsleep F n s = Inr s"
    if "intr_level s = INTR_ON" "TIMER_FREQ_ok F" "- (2 ^ 31) \<le> sint n"
    unfolding timer_msleep_def timer_usleep_def timer_nsleep_def
    using real_time_sleep_negative [OF that(1,2) d(1) dv(1) neg that(3)]
      real_time_sleep_negative [OF that(1,2) d(2) dv(2) neg that(3)]
      real_time_sleep_negative [OF that(1,2) d(3) dv(3) neg that(3)]
    by blast
  from a b c e show ?thesis by blast
qed

theorem negative_sleep_returns_witness:
  "sint (- 3 :: 64 word) < 0
   \<and> intr_level ((boot_state False)\<lparr>intr_level := INTR_ON, ticks := 10\<rparr>) = INTR_ON
   \<and> TIMER_FREQ_ok 100
   \<and> - (2 ^ 31) \<le> sint (- 3 :: 64 word)
   \<and> - (2 ^ 63) \<le> sint (ticks ((boot_state False)\<lparr>intr_level := INTR_ON, ticks := 10\<rparr>))
          + sint (- 3 :: 64 word)
   \<and> timer_sleep (- 3) ((boot_state False)\<lparr>intr_level := INTR_ON, ticks := 10\<rparr>)
       = (boot_state False)\<lparr>intr_level := INTR_ON, ticks := 10, calls := [Thread_sleep 7]\<rparr>
   \<and> sint (7 :: 64 word) < sint (10 :: 64 word)
   \<and> timer_msleep 100 (- 3) ((boot_state False)\<lparr>intr_level := INTR_ON, ticks := 10\<rparr>)
       = Inr ((boot_state False)\<lparr>intr_level := INTR_ON, ticks := 10\<rparr>)
   \<and> timer_usleep 100 (- 3) ((boot_state False)\<lparr>intr_level := INTR_ON, ticks := 10\<rparr>)
       = Inr ((boot_state False)\<lparr>intr_level := INTR_ON, ticks := 10\<rparr>)
   \<and> timer_nsleep 100 (- 3) ((boot_state False)\<lparr>intr_level := INTR_ON, ticks := 10\<rparr>)
       = Inr ((boot_state False)\<lparr>intr_level := INTR_ON, ticks := 10\<rparr>)"
proof -
  let ?s = "(boot_state False)\<lparr>intr_level := INTR_ON, ticks := 10\<rparr>"
  have neg: "sint (- 3 :: 64 word) < 0" by simp
  have on: "intr_level ?s = INTR_ON" by simp
  have F: "TIMER_FREQ_ok 100" by (simp add: TIMER_FREQ_ok_def)
  have lo: "- (2 ^ 31) \<le> sint (- 3 :: 64 word)" by simp
  have r: "- (2 ^ 63) \<le> sint (ticks ?s) + sint (- 3 :: 64 word)" by simp
  note t = negative_sleep_returns [OF neg, of ?s 100]
  have a: "timer_sleep (- 3) ?s
      = (boot_state False)\<lparr>intr_level := INTR_ON, ticks := 10, calls := [Thread_sleep 7]\<rparr>"
    using t by (simp add: boot_state_def)
  have b: "sint (7 :: 64 word) < sint (10 :: 64 word)"
    using t r by simp
  have c: "timer_msleep 100 (- 3) ?s = Inr ?s \<and> timer_usleep 100 (- 3) ?s = Inr ?s
      \<and> timer_nsleep 100 (- 3) ?s = Inr ?s"
    using t on F lo by blast
  from neg on F lo r a b c show ?thesis by blast
qed

text \<open>
  Claim C7 as the specification words it fails: with \<open>n = -1\<close> and interrupts on,
  \<open>timer_sleep\<close> asks for a wake-up at tick \<open>-1\<close> and \<open>timer_msleep\<close> returns
  normally.
\<close>

theorem negative_sleep_counterexample:
  "sint (- 1 :: 64 word) < 0
   \<and> intr_get_level ((boot_state False)\<lparr>intr_level := INTR_ON\<rparr>) = INTR_ON
   \<and> timer_sleep (- 1) ((boot_state False)\<lparr>intr_level := INTR_ON\<rparr>)
       = (boot_state False)\<lparr>intr_level := INTR_ON, calls := [Thread_sleep (- 1)]\<rparr>
   \<and> timer_msleep 100 (- 1) ((boot_state False)\<lparr>intr_level := INTR_ON\<rparr>)
       = Inr ((boot_state False)\<lparr>intr_level := INTR_ON\<rparr>)"
  by (simp add: timer_sleep_eq timer_msleep_def real_time_sleep_def sub_tick_loops_def
      c_div_def c_mod_def signed_divide_int_def signed_modulo_int_def intr_get_level_def
      busy_wait_eq boot_state_def)

text \<open>
  Claim C2 at interrupts off. \<open>timer_msleep\<close>, \<open>timer_usleep\<close> and \<open>timer_nsleep\<close> stop
  at the assertion in \<open>real_time_sleep\<close>. \<open>timer_sleep\<close> has no such assertion (it sits in
  the block the file comments out) and goes on to call \<open>thread_sleep\<close>.
\<close>

theorem timer_sleep_interrupts_off:
  "intr_get_level (boot_state False) = INTR_OFF
   \<and> timer_sleep 5 (boot_state False) = (boot_state False)\<lparr>calls := [Thread_sleep 5]\<rparr>
   \<and> timer_msleep 100 5 (boot_state False)
       = Inl (Assertion_failed ''intr_get_level () == INTR_ON'')
   \<and> timer_usleep 100 5 (boot_state False)
       = Inl (Assertion_failed ''intr_get_level () == INTR_ON'')
   \<and> timer_nsleep 100 5 (boot_state False)
       = Inl (Assertion_failed ''intr_get_level () == INTR_ON'')"
  by (simp add: timer_sleep_eq timer_msleep_def timer_usleep_def timer_nsleep_def
      real_time_sleep_def c_div_def signed_divide_int_def intr_get_level_def boot_state_def)

section \<open>timer_init\<close>

text \<open>
  Claim C9. For every \<open>TIMER_FREQ\<close> from 19 to 1000, \<open>timer_init\<close> writes the mode byte
  and then the low and the high byte of \<open>count = (1193180 + TIMER_FREQ / 2) / TIMER_FREQ\<close>
  to the timer chip and registers the handler. The count is positive and below \<open>2^16\<close>,
  so the conversion to \<open>uint16_t\<close> loses nothing and the two bytes make up the count;
  and no integer multiple of \<open>TIMER_FREQ\<close> is nearer to 1193180 than
  \<open>count * TIMER_FREQ\<close>, which makes \<open>count\<close> a nearest integer to
  \<open>1193180 / TIMER_FREQ\<close>.
\<close>

theorem timer_init_divisor:
  assumes F: "TIMER_FREQ_ok F"
  shows
    "(let c = (1193180 + F div 2) div F;
          count = (word_of_int c :: 16 word);
          lo = (ucast (count AND 0xff) :: 8 word);
          hi = (ucast (drop_bit 8 count) :: 8 word)
      in timer_init F s =
           s\<lparr>calls := calls s @ [Outb 0x43 0x34, Outb 0x40 lo, Outb 0x40 hi,
                                  Intr_register_ext 0x20 ''8254 Timer'']\<rparr>
         \<and> (1193180 + F sdiv 2) sdiv F = c
         \<and> 0 < c \<and> c < 2 ^ 16
         \<and> uint count = c
         \<and> uint hi * 256 + uint lo = c
         \<and> (\<forall>k. \<bar>c * F - 1193180\<bar> \<le> \<bar>k * F - 1193180\<bar>))"
proof -
  from F have Fr: "19 \<le> F" "F \<le> 1000" by (simp_all add: TIMER_FREQ_ok_def)
  define c where "c = (1193180 + F div 2) div F"
  define count where "count = (word_of_int c :: 16 word)"
  have h: "0 \<le> F div 2" "F div 2 \<le> 500" using Fr by simp_all
  have sd: "(1193180 + F sdiv 2) sdiv F = c"
    using Fr h by (simp add: sdiv_pos c_def)
  have "c \<le> (1193180 + 500) div F"
    unfolding c_def using h Fr by (intro zdiv_mono1) simp_all
  also have "\<dots> \<le> (1193180 + 500) div 19"
    using Fr by (intro zdiv_mono2) simp_all
  also have "\<dots> < 2 ^ 16" by simp
  finally have hi: "c < 2 ^ 16" .
  have "1193180 div F \<le> c"
    unfolding c_def using h Fr by (intro zdiv_mono1) simp_all
  moreover have "1193180 div 1000 \<le> 1193180 div F"
    using Fr by (intro zdiv_mono2) simp_all
  ultimately have lo: "0 < c" by simp
  have uc: "uint count = c"
    using lo hi by (simp add: count_def uint_word_of_int)
  have bytes: "uint (ucast (drop_bit 8 count) :: 8 word) * 256
                 + uint (ucast (count AND 0xff) :: 8 word) = c"
    using byte_split [of count] uc by simp
  have near: "\<bar>c * F - 1193180\<bar> \<le> \<bar>k * F - 1193180\<bar>" for k
    unfolding c_def using Fr by (intro round_nearest) simp
  have ti: "timer_init F s =
           s\<lparr>calls := calls s @ [Outb 0x43 0x34, Outb 0x40 (ucast (count AND 0xff)),
                                  Outb 0x40 (ucast (drop_bit 8 count)),
                                  Intr_register_ext 0x20 ''8254 Timer'']\<rparr>"
    by (simp add: timer_init_def call_def Let_def sd count_def)
  show ?thesis
    unfolding Let_def
    using ti sd lo hi uc bytes near
    unfolding count_def c_def by blast
qed

theorem timer_init_divisor_witness:
  "TIMER_FREQ_ok 100
   \<and> timer_init 100 (boot_state False) =
       (boot_state False)\<lparr>calls := [Outb 0x43 0x34, Outb 0x40 0x9c, Outb 0x40 0x2e,
                                   Intr_register_ext 0x20 ''8254 Timer'']\<rparr>
   \<and> (1193180 + 100 sdiv 2) sdiv 100 = (11932 :: int)
   \<and> uint (0x2e :: 8 word) * 256 + uint (0x9c :: 8 word) = 11932
   \<and> \<bar>11932 * 100 - 1193180\<bar> \<le> \<bar>11933 * 100 - (1193180 :: int)\<bar>"
proof -
  have F: "TIMER_FREQ_ok 100" by (simp add: TIMER_FREQ_ok_def)
  have c: "(1193180 + 100 div 2) div 100 = (11932 :: int)" by simp
  have lo: "(ucast ((11932 :: 16 word) AND 0xff) :: 8 word) = 0x9c" by simp
  have hi: "(ucast (drop_bit 8 (11932 :: 16 word)) :: 8 word) = 0x2e" 
    by (simp add: drop_bit_eq_div)
  note t = timer_init_divisor [OF F, of "boot_state False", unfolded Let_def c, simplified lo hi]
  show ?thesis
    using F t by (simp add: boot_state_def)
qed

section \<open>The tick counter\<close>

text \<open>
  Claim C8. The counter is zero at boot. The handler adds exactly one to it; no other
  operation changes it, and \<open>timer_ticks\<close> and \<open>timer_elapsed\<close> only read it. So along
  any sequence of operations the counter never decreases, as long as the number of
  interrupts keeps it within the range of \<open>int64_t\<close>.
\<close>

theorem ticks_monotone:
  "ticks (boot_state m) = 0
   \<and> ticks (timer_interrupt F s) = ticks s + 1
   \<and> (\<forall>x s'. x \<noteq> Interrupt \<and> exec_op F x s = Inr s' \<longrightarrow> ticks s' = ticks s)
   \<and> timer_ticks s = (ticks s, s)
   \<and> timer_elapsed t s = (ticks s - t, s)
   \<and> (sint (ticks s) + int (count_list ops Interrupt) < 2 ^ 63 \<longrightarrow>
        sorted (map (sint \<circ> ticks) (run F ops s)))
   \<and> (int (count_list ops Interrupt) < 2 ^ 63 \<longrightarrow>
        sorted (map (sint \<circ> ticks) (run F ops (boot_state m))))"
proof -
  have a: "ticks (boot_state m) = 0" by (simp add: boot_state_def)
  have b: "ticks (timer_interrupt F s) = ticks s + 1" by (simp add: timer_interrupt_eq)
  have c: "\<forall>x s'. x \<noteq> Interrupt \<and> exec_op F x s = Inr s' \<longrightarrow> ticks s' = ticks s"
    using exec_op_ticks [of F _ s] by blast
  have d: "sorted (map (sint \<circ> ticks) (run F ops u))"
    if "sint (ticks u) + int (count_list ops Interrupt) < 2 ^ 63" for u
    using run_ticks [OF that] by blast
  have e: "sorted (map (sint \<circ> ticks) (run F ops (boot_state m)))"
    if "int (count_list ops Interrupt) < 2 ^ 63"
    using d [of "boot_state m"] that a by simp
  from a b c d [of s] e timer_ticks_eq [of s] timer_elapsed_eq [of t s]
  show ?thesis by blast
qed

theorem ticks_monotone_witness:
  "Sleep 5 \<noteq> Interrupt
   \<and> exec_op 100 (Sleep 5) (boot_state False) = Inr (timer_sleep 5 (boot_state False))
   \<and> ticks (timer_sleep 5 (boot_state False)) = ticks (boot_state False)
   \<and> int (count_list [Interrupt, Sleep 5, Interrupt, Ticks, Msleep 1, Interrupt] Interrupt)
       < 2 ^ 63
   \<and> sorted (map (sint \<circ> ticks)
        (run 100 [Interrupt, Sleep 5, Interrupt, Ticks, Msleep 1, Interrupt] (boot_state False)))
   \<and> map (sint \<circ> ticks)
        (run 100 [Interrupt, Sleep 5, Interrupt, Ticks, Msleep 1, Interrupt] (boot_state False))
       = [0, 1, 1, 2, 2]"
proof -
  let ?ops = "[Interrupt, Sleep 5, Interrupt, Ticks, Msleep 1, Interrupt]"
  have ne: "Sleep 5 \<noteq> Interrupt" by simp
  have ex: "exec_op 100 (Sleep 5) (boot_state False) = Inr (timer_sleep 5 (boot_state False))"
    by simp
  have n: "int (count_list ?ops Interrupt) < 2 ^ 63" by simp
  note t = ticks_monotone [of False 100 "boot_state False" 0 ?ops]
  have a: "ticks (timer_sleep 5 (boot_state False)) = ticks (boot_state False)"
    using t ne ex by blast
  have b: "sorted (map (sint \<circ> ticks) (run 100 ?ops (boot_state False)))"
    using t n by blast
  have c: "map (sint \<circ> ticks) (run 100 ?ops (boot_state False)) = [0, 1, 1, 2, 2]"
    by (simp add: timer_interrupt_eq timer_sleep_eq timer_ticks_eq timer_msleep_def
        real_time_sleep_def c_div_def signed_divide_int_def intr_get_level_def boot_state_def)
  from ne ex n a b c show ?thesis by blast
qed

section \<open>timer_calibrate\<close>

text \<open>
  On a machine where no probe ever takes a tick, the doubling phase shifts
  \<open>loops_per_tick\<close> out of its 32 bits and the assertion after the shift fails.
\<close>

lemma timer_calibrate_overflow:
  "timer_calibrate (\<lambda>earlier loops. False) 100
       ((boot_state False)\<lparr>intr_level := INTR_ON\<rparr>)
     = Inl (Assertion_failed ''loops_per_tick != 0'')"
  by (simp add: timer_calibrate_def calibrate_double.simps
      too_many_loops_eq intr_get_level_def call_def boot_state_def Let_def)

text \<open>
  Whatever the machine, the doubling phase leaves a power of two from \<open>2^10\<close> to
  \<open>2^31\<close> in \<open>loops_per_tick\<close>, and the refinement phase then makes nine probes, one for
  each of the nine bits below the high bit.
\<close>

lemma pow2_inj_32:
  fixes a b :: nat
  assumes "a < 32" "b < 32" "(2 :: 32 word) ^ a = 2 ^ b"
  shows "a = b"
proof -
  have "bit ((2 :: 32 word) ^ a) a" using assms(1) by (simp add: bit_exp_iff)
  then have "bit ((2 :: 32 word) ^ b) a" by (simp only: assms(3))
  then show ?thesis by (simp add: bit_exp_iff)
qed

lemma drop_bit_pow2_32:
  fixes k j :: nat
  assumes "j \<le> k" "k < 32"
  shows "drop_bit j ((2 :: 32 word) ^ k) = 2 ^ (k - j)"
  using assms by (simp add: drop_bit_exp_eq)

lemma push_bit_pow2_32: "push_bit 1 ((2 :: 32 word) ^ k) = 2 ^ Suc k"
  by (simp add: push_bit_eq_mult)

lemma pow2_ne0_32: "k < 32 \<Longrightarrow> (2 :: 32 word) ^ k \<noteq> 0"
  by (simp add: )

lemma pow2_eq0_32: "32 \<le> k \<Longrightarrow> (2 :: 32 word) ^ k = 0"
  by (simp add: )

lemma calibrate_double_pow2:
  "calibrate_double clk s = Inr s' \<Longrightarrow> loops_per_tick s = 2 ^ k \<Longrightarrow> k < 32 \<Longrightarrow>
     \<exists>k' d. k \<le> k' \<and> k' < 32 \<and> loops_per_tick s' = 2 ^ k' \<and> probes s' = probes s @ d"
proof (induction clk s arbitrary: k rule: calibrate_double.induct)
  case (1 clk s)
  let ?s1 = "s\<lparr>busy_iters := busy_iters s + unat (push_bit 1 (loops_per_tick s)),
               probes := probes s @ [push_bit 1 (loops_per_tick s)]\<rparr>"
  show ?case
  proof (cases "clk (probes s) (push_bit 1 (loops_per_tick s))")
    case True
    with "1.prems" show ?thesis
      by (subst (asm) calibrate_double.simps) (auto simp: too_many_loops_eq Let_def)
  next
    case False
    let ?s2 = "?s1\<lparr>loops_per_tick := push_bit 1 (loops_per_tick ?s1)\<rparr>"
    from False "1.prems"(1) have nz: "loops_per_tick ?s2 \<noteq> 0"
      and rec: "calibrate_double clk ?s2 = Inr s'"
      by (subst (asm) calibrate_double.simps, simp add: too_many_loops_eq Let_def split: if_splits)+
    have l2: "loops_per_tick ?s2 = 2 ^ Suc k"
      using "1.prems"(2) by (simp add: push_bit_eq_mult)
    have k2: "Suc k < 32"
    proof (rule ccontr)
      assume "\<not> Suc k < 32"
      then have "(2 :: 32 word) ^ Suc k = 0" by (intro pow2_eq0_32) simp
      with nz l2 show False by simp
    qed
    have tm: "too_many_loops clk (push_bit 1 (loops_per_tick s)) s = (False, ?s1)"
      using False by (simp add: too_many_loops_eq)
    from "1.IH" [OF tm [symmetric] refl _ refl nz rec l2 k2]
    obtain k' d where "Suc k \<le> k'" "k' < 32" "loops_per_tick s' = 2 ^ k'"
      "probes s' = probes ?s2 @ d" by auto
    then show ?thesis
      by (intro exI [of _ k'] exI [of _ "push_bit 1 (loops_per_tick s) # d"]) simp
  qed
qed

lemma calibrate_refine_probes:
  fixes hb :: "32 word"
  assumes hb: "hb = 2 ^ k" and k: "10 \<le> k" "k < 32"
  shows "1 \<le> j \<Longrightarrow> j \<le> 10 \<Longrightarrow>
     \<exists>s'. calibrate_refine clk hb (drop_bit j hb) s = Some s'
          \<and> probes s' = probes s @ map (\<lambda>i. hb OR drop_bit i hb) [j..<10]"
proof (induction "10 - j" arbitrary: j s)
  case 0
  then have "j = 10" by simp
  then show ?case by (subst calibrate_refine.simps) simp
next
  case (Suc n)
  then have j: "j < 10" "1 \<le> Suc j" "Suc j \<le> 10" and n: "n = 10 - Suc j" by auto
  have ne: "drop_bit j hb \<noteq> drop_bit 10 hb"
  proof
    assume "drop_bit j hb = drop_bit 10 hb"
    then have "(2 :: 32 word) ^ (k - j) = 2 ^ (k - 10)"
      using k j by (simp add: hb drop_bit_pow2_32)
    then have "k - j = k - 10" using k by (intro pow2_inj_32) simp_all
    with k j show False by simp
  qed
  have sh: "drop_bit 1 (drop_bit j hb) = drop_bit (Suc j) hb" by simp
  have up: "[j..<10] = j # [Suc j..<10]" using j by (simp add: upt_conv_Cons)
  let ?s1 = "s\<lparr>busy_iters := busy_iters s + unat (hb OR drop_bit j hb),
                probes := probes s @ [hb OR drop_bit j hb]\<rparr>"
  let ?s2 = "?s1\<lparr>loops_per_tick := loops_per_tick ?s1 OR drop_bit j hb\<rparr>"
  from Suc.hyps(1) [OF n j(2,3)]
  have IH: "\<exists>s'. calibrate_refine clk hb (drop_bit (Suc j) hb) t = Some s'
              \<and> probes s' = probes t @ map (\<lambda>i. hb OR drop_bit i hb) [Suc j..<10]" for t
    by blast
  show ?case
    apply (subst calibrate_refine.simps)
    using ne IH [of ?s1] IH [of ?s2]
    apply (simp add: too_many_loops_eq Let_def sh up del: upt_Suc)
    done
qed

lemma timer_calibrate_probes:
  assumes "timer_calibrate clk F s = Inr s'"
  shows "\<exists>k d. 10 \<le> k \<and> k < 32
           \<and> probes s' = probes s @ d @ map (\<lambda>j. 2 ^ k OR drop_bit j (2 ^ k)) [1..<10]"
proof -
  let ?s2 = "call Printf_calibrating s\<lparr>loops_per_tick := push_bit 10 1\<rparr>"
  from assms obtain s3 where s3: "calibrate_double clk ?s2 = Inr s3"
    by (cases "calibrate_double clk ?s2")
       (auto simp: timer_calibrate_def Let_def split: if_splits)
  have "loops_per_tick ?s2 = 2 ^ 10" by (simp add: push_bit_eq_mult)
  from calibrate_double_pow2 [OF s3 this]
  obtain k d where k: "10 \<le> k" "k < 32" and l3: "loops_per_tick s3 = 2 ^ k"
    and p3: "probes s3 = probes ?s2 @ d"
    by auto
  from calibrate_refine_probes [OF l3 k, of 1 clk s3]
  obtain s4 where s4: "calibrate_refine clk (loops_per_tick s3) (drop_bit 1 (loops_per_tick s3)) s3
                         = Some s4"
    and p4: "probes s4 = probes s3 @ map (\<lambda>i. loops_per_tick s3 OR drop_bit i (loops_per_tick s3)) [1..<10]"
    by auto
  from assms s3 s4 have "probes s' = probes s4"
    by (auto simp: timer_calibrate_def Let_def call_def split: if_splits)
  with p4 p3 l3 k show ?thesis
    by (intro exI [of _ k] exI [of _ d]) (simp add: call_def)
qed

text \<open>
  Claim C3 on a machine where up to 2047 iterations of the loop fit in one tick. The
  doubling phase stops at \<open>2^10\<close>. The refinement phase then probes nine bits below the
  high bit, from \<open>high_bit >> 1 = 512\<close> down to \<open>high_bit >> 9 = 2\<close>, and keeps all nine:
  \<open>loops_per_tick\<close> ends as \<open>0x7FE\<close>. Eight bits, as the comment in the code says,
  would stop at 4 and give \<open>0x7FC\<close>.
\<close>

theorem timer_calibrate_nine_bits:
  "timer_calibrate (\<lambda>earlier loops. 2047 < loops) 100
       ((boot_state False)\<lparr>intr_level := INTR_ON\<rparr>)
     = Inr ((boot_state False)
             \<lparr>intr_level := INTR_ON,
              loops_per_tick := 0x7FE,
              calls := [Printf_calibrating, Printf_loops_per_s 204600],
              busy_iters := 12286,
              probes := [2048, 1536, 1280, 1152, 1088, 1056, 1040, 1032, 1028, 1026]\<rparr>)"
  by (simp add: timer_calibrate_def calibrate_double.simps calibrate_refine.simps
      too_many_loops_eq intr_get_level_def call_def boot_state_def Let_def drop_bit_eq_div)

end
